theory Spec2Isabelle
  imports Complex_Main "HOL-Library.Multiset" "HOL-Library.Word" "HOL-Library.Option_ord"
begin

section \<open>Ranking metrics of \<open>project/utils/score.py\<close>\<close>

text \<open>
  The module evaluates a recommender: \<open>rank\<close> streams scored edges batch by batch into a
  per-entity buffer, \<open>recall_score\<close> and \<open>ndcg_score\<close> turn the ranked labels into
  per-entity metrics, and \<open>composite\<close> averages them.

  Tensors are modelled as lists (a matrix is a list of rows); a matrix carries its column
  count separately where the code reads \<open>score.shape\<close>. Finite floating-point numbers are
  idealised as reals; the special values that a float division or sum can produce are kept
  as constructors of \<open>fval\<close>, so that a division by zero is a value of the model as it is a
  value of the program. Exceptions of the tensor library are values of \<open>error\<close>.
\<close>

subsection \<open>Errors and floating-point results\<close>

datatype error = IndexError | ShapeError | EmptyReduction

datatype fval = Fin real | PInf | NInf | NaN

text \<open>Float division as the tensor library performs it: no exception, the quotient by zero
  is an infinity or not-a-number.\<close>

fun fdiv :: "fval \<Rightarrow> fval \<Rightarrow> fval" where
  "fdiv NaN _ = NaN"
| "fdiv _ NaN = NaN"
| "fdiv (Fin a) (Fin b) =
     (if b \<noteq> 0 then Fin (a / b) else if 0 < a then PInf else if a < 0 then NInf else NaN)"
| "fdiv (Fin a) PInf = Fin 0"
| "fdiv (Fin a) NInf = Fin 0"
| "fdiv PInf (Fin b) = (if 0 \<le> b then PInf else NInf)"
| "fdiv NInf (Fin b) = (if 0 \<le> b then NInf else PInf)"
| "fdiv PInf PInf = NaN"
| "fdiv PInf NInf = NaN"
| "fdiv NInf PInf = NaN"
| "fdiv NInf NInf = NaN"

fun fadd :: "fval \<Rightarrow> fval \<Rightarrow> fval" where
  "fadd NaN _ = NaN"
| "fadd _ NaN = NaN"
| "fadd (Fin a) (Fin b) = Fin (a + b)"
| "fadd PInf NInf = NaN"
| "fadd NInf PInf = NaN"
| "fadd PInf _ = PInf"
| "fadd _ PInf = PInf"
| "fadd NInf _ = NInf"
| "fadd _ NInf = NInf"

definition fsum :: "fval list \<Rightarrow> fval" where
  "fsum xs = foldl fadd (Fin 0) xs"

text \<open>\<open>Tensor.mean()\<close>: the sum divided by the number of elements (not-a-number on an
  empty tensor).\<close>

definition fmean :: "fval list \<Rightarrow> fval" where
  "fmean xs = fdiv (fsum xs) (Fin (real (length xs)))"

text \<open>Broadcasting of two one-dimensional tensors in an elementwise operation.\<close>

definition broadcast2 :: "'a list \<Rightarrow> 'b list \<Rightarrow> error + ('a \<times> 'b) list" where
  "broadcast2 xs ys =
     (if length xs = length ys then Inr (zip xs ys)
      else if length xs = 1 then Inr (map (\<lambda>y. (hd xs, y)) ys)
      else if length ys = 1 then Inr (map (\<lambda>x. (x, hd ys)) xs)
      else Inl ShapeError)"

text \<open>Whether a float is an ordinary number, and the quotient of a number by zero.\<close>

definition is_fin :: "fval \<Rightarrow> bool" where
  "is_fin v = (case v of Fin _ \<Rightarrow> True | _ \<Rightarrow> False)"

definition div0 :: "real \<Rightarrow> fval" where
  "div0 s = (if 0 < s then PInf else if s < 0 then NInf else NaN)"

subsection \<open>\<open>recall_score\<close>\<close>

text \<open>\<open>score.sum(dim=-1) / total\<close>: the row sums divided elementwise by the counts.\<close>

definition recall_score :: "real list list \<Rightarrow> int list \<Rightarrow> error + fval list" where
  "recall_score score tot =
     (case broadcast2 (map sum_list score) tot of
        Inl e \<Rightarrow> Inl e
      | Inr ps \<Rightarrow> Inr (map (\<lambda>(s, t). fdiv (Fin s) (Fin (real_of_int t))) ps))"

subsection \<open>\<open>ndcg_coefs\<close> and \<open>ndcg_score\<close>\<close>

definition ndcg_coefs :: "nat \<Rightarrow> real list" where
  "ndcg_coefs cnt = map (\<lambda>r. log 2 (real r + 2)) [0..<cnt]"

text \<open>The \<open>total\<close> argument of \<open>ndcg_score\<close> is a tensor of counts or, as the code tests
  with \<open>type(total) == int\<close>, a Python integer.\<close>

datatype total_arg = PyInt int | Tens "int list"

text \<open>A one-dimensional tensor expanded along a last dimension of size \<open>count\<close>.\<close>

definition expand_last :: "nat \<Rightarrow> 'a list \<Rightarrow> error + 'a list" where
  "expand_last cnt xs =
     (if length xs = cnt then Inr xs
      else if length xs = 1 then Inr (replicate cnt (hd xs))
      else Inl ShapeError)"

text \<open>
  \<open>ndcg_score count score total coefs\<close>, where \<open>count\<close> is the last dimension of
  \<open>score.shape\<close> (every row of \<open>score\<close> has that length) and \<open>batch\<close> the number of rows.
  \<open>terms\<close> is the mask \<open>r < min(total, count)\<close> multiplied by the coefficients.
\<close>

definition ndcg_terms :: "nat \<Rightarrow> real list \<Rightarrow> int \<Rightarrow> real list" where
  "ndcg_terms cnt coefs t =
     map (\<lambda>r. (if int r < min t (int cnt) then 1 else 0) * coefs ! r) [0..<cnt]"

definition ndcg_score ::
  "nat \<Rightarrow> real list list \<Rightarrow> total_arg \<Rightarrow> real list option \<Rightarrow> error + fval list" where
  "ndcg_score cnt score tot coefs =
     (let total1 = (case tot of PyInt _ \<Rightarrow> replicate cnt (int cnt) | Tens v \<Rightarrow> v);
          coefs1 = (case coefs of None \<Rightarrow> ndcg_coefs cnt | Some c \<Rightarrow> c)
      in case expand_last cnt coefs1 of
           Inl e \<Rightarrow> Inl e
         | Inr cs \<Rightarrow>
             (let nums = map (\<lambda>row. fsum (map (\<lambda>(s, c). fdiv (Fin s) (Fin c)) (zip row cs))) score;
                  dens = map (\<lambda>t. sum_list (ndcg_terms cnt cs t)) total1
              in case broadcast2 nums dens of
                   Inl e \<Rightarrow> Inl e
                 | Inr ps \<Rightarrow> Inr (map (\<lambda>(n, d). fdiv n (Fin d)) ps)))"

text \<open>The formula of the specification, for one entity: the discounted sum of the labels over
  the ideal discounted sum of an entity with \<open>p\<close> positives.\<close>

definition spec_dcg :: "real list \<Rightarrow> real" where
  "spec_dcg row = (\<Sum>r<length row. row ! r / log 2 (real r + 2))"

definition spec_ideal :: "nat \<Rightarrow> int \<Rightarrow> real" where
  "spec_ideal cnt p = (\<Sum>r<nat (min p (int cnt)). 1 / log 2 (real r + 2))"

definition spec_ndcg :: "real list \<Rightarrow> int \<Rightarrow> real" where
  "spec_ndcg row p = spec_dcg row / spec_ideal (length row) p"

text \<open>What the code computes as normaliser: the sum of the logarithms themselves.\<close>

definition code_ideal :: "nat \<Rightarrow> int \<Rightarrow> real" where
  "code_ideal cnt p = (\<Sum>r<nat (min p (int cnt)). log 2 (real r + 2))"

section \<open>The streaming ranker \<open>rank\<close>\<close>

subsection \<open>Data\<close>

text \<open>
  A score in a buffer is a real number or the sentinel \<open>-inf\<close> that
  \<open>torch.full(..., fill_value=-torch.inf)\<close> writes; \<open>None\<close> is the sentinel, and the order
  on \<open>real option\<close> puts it below every number. Scores that the predictor returns are
  finite. A label is a float, idealised as a real. The positive counts are a tensor of
  \<open>dtype=torch.int\<close>, 32-bit integers that wrap around.
\<close>

type_synonym score = "real option"

text \<open>
  One batch of the loader, as \<open>rank\<close> reads it: \<open>n_id\<close> is \<open>batch[src_node].n_id\<close> (the
  global ids of the batch's source nodes), \<open>src_idx\<close> is the first row of
  \<open>batch[edge_type].edge_label_index\<close> (one local node index per edge), \<open>edge_label\<close> is
  \<open>batch[edge_type].edge_label\<close>, and \<open>edge_score\<close> is what \<open>pred_fn\<close> returns for the
  batch.
\<close>

record batch =
  n_id :: "nat list"
  src_idx :: "nat list"
  edge_label :: "real list"
  edge_score :: "real list"

record rank_state =
  scr_buf :: "score list list"
  lbl_buf :: "real list list"
  pos_cnt :: "32 word list"

text \<open>
  The tensor library's routines whose result the documentation leaves partly open are
  parameters of the model:
  \<^item> \<open>argsort xs\<close> stands for \<open>xs.argsort(descending=True)\<close> on one row: some permutation
    of the positions that puts the values in descending order (the call does not ask for
    a stable sort, so the order among equal values is not fixed);
  \<^item> \<open>topk k xs\<close> stands for the indices of \<open>torch.topk(xs, k, sorted=False)\<close> on one row:
    \<open>k\<close> different positions that hold the \<open>k\<close> largest values, in any order;
  \<^item> \<open>empty a i j\<close> is the content of cell \<open>(i, j)\<close> of the \<open>a\<close>-th matrix obtained from
    \<open>torch.empty\<close>, which allocates without initialising.
\<close>

record torch =
  argsort :: "score list \<Rightarrow> nat list"
  topk :: "nat \<Rightarrow> score list \<Rightarrow> nat list"
  empty :: "nat \<Rightarrow> nat \<Rightarrow> nat \<Rightarrow> real"

definition argsort_ok :: "(score list \<Rightarrow> nat list) \<Rightarrow> bool" where
  "argsort_ok srt \<longleftrightarrow>
     (\<forall>xs. mset (srt xs) = mset [0..<length xs] \<and>
           sorted_wrt (\<lambda>a b. b \<le> a) (map (\<lambda>i. xs ! i) (srt xs)))"

text \<open>\<open>xs.gather(-1, idx)\<close> on one row.\<close>

definition gather :: "'a list \<Rightarrow> nat list \<Rightarrow> 'a list" where
  "gather xs idx = map (\<lambda>i. xs ! i) idx"

definition topk_ok :: "(nat \<Rightarrow> score list \<Rightarrow> nat list) \<Rightarrow> bool" where
  "topk_ok tk \<longleftrightarrow>
     (\<forall>k xs. k \<le> length xs \<longrightarrow>
        length (tk k xs) = k \<and> distinct (tk k xs) \<and> set (tk k xs) \<subseteq> {..<length xs} \<and>
        mset (gather xs (tk k xs)) = mset (take k (rev (sort xs))))"

definition torch_ok :: "torch \<Rightarrow> bool" where
  "torch_ok T \<longleftrightarrow> argsort_ok (argsort T) \<and> topk_ok (topk T)"

subsection \<open>Tensor operations\<close>

text \<open>\<open>Tensor.unique()\<close>: the distinct values in ascending order; with
  \<open>return_counts=True\<close> also how often each occurs.\<close>

definition unique :: "nat list \<Rightarrow> nat list" where
  "unique xs = sort (remdups xs)"

definition unique_counts :: "nat list \<Rightarrow> nat list" where
  "unique_counts xs = map (count_list xs) (unique xs)"

text \<open>\<open>m.gather(dim=-1, index=idx)\<close> on a matrix: row by row.\<close>

definition gather_rows :: "'a list list \<Rightarrow> nat list list \<Rightarrow> 'a list list" where
  "gather_rows m idx = map (\<lambda>(row, ix). gather row ix) (zip m idx)"

definition alloc :: "(nat \<Rightarrow> nat \<Rightarrow> real) \<Rightarrow> nat \<Rightarrow> nat \<Rightarrow> real list list" where
  "alloc mem rows cols = map (\<lambda>i. map (mem i) [0..<cols]) [0..<rows]"

text \<open>\<open>m[rows, cols] = vals\<close> with index tensors: the cells are written one after the
  other (the bounds are checked by the caller, as the library does before writing).\<close>

fun index_put :: "'a list list \<Rightarrow> (nat \<times> nat) list \<Rightarrow> 'a list \<Rightarrow> 'a list list" where
  "index_put m ((r, c) # ps) (v # vs) = index_put (m[r := (m ! r)[c := v]]) ps vs"
| "index_put m _ _ = m"

text \<open>\<open>zeros(n).scatter_add(0, index, src)\<close>, bounds checked by the caller.\<close>

fun scatter_add :: "32 word list \<Rightarrow> nat list \<Rightarrow> 32 word list \<Rightarrow> 32 word list" where
  "scatter_add acc (i # is) (v # vs) = scatter_add (acc[i := acc ! i + v]) is vs"
| "scatter_add acc _ _ = acc"

text \<open>An update through a boolean row mask, \<open>xs[msk] = f(xs[msk], ts)\<close>: the \<open>n\<close>-th selected
  row is combined with the \<open>n\<close>-th row of \<open>ts\<close>; the other rows stay.\<close>

fun masked_upd :: "('a \<Rightarrow> 'b \<Rightarrow> 'a) \<Rightarrow> bool list \<Rightarrow> 'a list \<Rightarrow> 'b list \<Rightarrow> 'a list" where
  "masked_upd f (True # ms) (x # xs) (t # ts) = f x t # masked_upd f ms xs ts"
| "masked_upd f (False # ms) (x # xs) ts = x # masked_upd f ms xs ts"
| "masked_upd f _ xs _ = xs"

text \<open>\<open>Tensor.int()\<close> on a float: truncation towards zero; a value outside the range of
  32 bits is converted to the smallest integer.\<close>

definition to_int32 :: "real \<Rightarrow> 32 word" where
  "to_int32 x =
     (let t = (if 0 \<le> x then \<lfloor>x\<rfloor> else \<lceil>x\<rceil>)
      in if - (2 ^ 31) \<le> t \<and> t < 2 ^ 31 then word_of_int t else word_of_int (- (2 ^ 31)))"

subsection \<open>One iteration of the loop\<close>

definition src_ids_of :: "batch \<Rightarrow> nat list" where
  "src_ids_of b = map (\<lambda>i. n_id b ! i) (src_idx b)"

definition gbl_msk_of :: "nat list \<Rightarrow> batch \<Rightarrow> bool list" where
  "gbl_msk_of gbl_uid b = map (\<lambda>g. g \<in> set (unique (src_ids_of b))) gbl_uid"

definition row_cnt_of :: "nat list \<Rightarrow> batch \<Rightarrow> nat" where
  "row_cnt_of gbl_uid b = length (filter id (gbl_msk_of gbl_uid b))"

definition col_cnt_of :: "nat \<Rightarrow> batch \<Rightarrow> nat" where
  "col_cnt_of K b = max K (Max (set (unique_counts (src_ids_of b))))"

definition col_idx_of :: "batch \<Rightarrow> nat list" where
  "col_idx_of b = concat (map (\<lambda>c. [0..<c]) (unique_counts (src_ids_of b)))"

text \<open>The temporary matrices after \<open>scr_tmp[src_idx, col_idx] = edge_score\<close> and
  \<open>lbl_tmp[src_idx, col_idx] = edge_label\<close>.\<close>

definition scr_tmp_of :: "nat \<Rightarrow> nat list \<Rightarrow> batch \<Rightarrow> real list \<Rightarrow> score list list" where
  "scr_tmp_of K gbl_uid b vals =
     index_put (replicate (row_cnt_of gbl_uid b) (replicate (col_cnt_of K b) None))
       (zip (src_idx b) (col_idx_of b)) (map Some vals)"

definition lbl_tmp_of ::
  "(nat \<Rightarrow> nat \<Rightarrow> real) \<Rightarrow> nat \<Rightarrow> nat list \<Rightarrow> batch \<Rightarrow> real list \<Rightarrow> real list list" where
  "lbl_tmp_of mem K gbl_uid b vals =
     index_put (alloc mem (row_cnt_of gbl_uid b) (col_cnt_of K b))
       (zip (src_idx b) (col_idx_of b)) vals"

text \<open>
  The body of \<open>for batch in loader\<close>, in the order of the source. \<open>bno\<close> numbers the
  batches, so that each \<open>torch.empty\<close> has its own content. The errors are those the
  library raises: an index outside a tensor, shapes that do not broadcast, \<open>max()\<close> of an
  empty tensor. In an indexed assignment the library compares the shape of the values
  with that of the indices before it checks the indices against the bounds.
\<close>

definition rank_step ::
  "torch \<Rightarrow> nat \<Rightarrow> nat list \<Rightarrow> nat \<Rightarrow> batch \<Rightarrow> rank_state \<Rightarrow> error + rank_state" where
  "rank_step T K gbl_uid bno b st =
     (if \<exists>i\<in>set (src_idx b). length (n_id b) \<le> i then Inl IndexError
      else if src_idx b = [] then Inl EmptyReduction
      else case expand_last (length (src_idx b)) (edge_score b) of
        Inl e \<Rightarrow> Inl e
      | Inr scores \<Rightarrow>
     (if \<exists>i\<in>set (src_idx b). row_cnt_of gbl_uid b \<le> i then Inl IndexError
      else case expand_last (length (src_idx b)) (edge_label b) of
        Inl e \<Rightarrow> Inl e
      | Inr labels \<Rightarrow>
        (let scr_tmp = scr_tmp_of K gbl_uid b scores;
             lbl_tmp = lbl_tmp_of (empty T (Suc bno)) K gbl_uid b labels;
             top_idx = map (topk T K) scr_tmp;
             scr_top = gather_rows scr_tmp top_idx;
             lbl_top = gather_rows lbl_tmp top_idx;
             gbl_msk = gbl_msk_of gbl_uid b;
             scr_new = masked_upd (\<lambda>row new. take K row @ new) gbl_msk (scr_buf st) scr_top;
             lbl_new = masked_upd (\<lambda>row new. take K row @ new) gbl_msk (lbl_buf st) lbl_top;
             buf_idx = map (argsort T) scr_new;
             scr_srt = gather_rows scr_new buf_idx;
             lbl_srt = gather_rows lbl_new buf_idx
         in if length (edge_label b) < length (src_idx b) then Inl ShapeError
            else Inr \<lparr>scr_buf = scr_srt, lbl_buf = lbl_srt,
                      pos_cnt = masked_upd (\<lambda>c d. c + d) gbl_msk (pos_cnt st)
                        (scatter_add (replicate (row_cnt_of gbl_uid b) 0) (src_idx b)
                           (map to_int32 (edge_label b)))\<rparr>)))"

subsection \<open>The loop and \<open>rank\<close>\<close>

fun rank_loop ::
  "torch \<Rightarrow> nat \<Rightarrow> nat list \<Rightarrow> nat \<Rightarrow> batch list \<Rightarrow> rank_state \<Rightarrow> error + rank_state" where
  "rank_loop T K gbl_uid bno [] st = Inr st"
| "rank_loop T K gbl_uid bno (b # bs) st =
     (case rank_step T K gbl_uid bno b st of
        Inl e \<Rightarrow> Inl e
      | Inr st' \<Rightarrow> rank_loop T K gbl_uid (Suc bno) bs st')"

definition init_state :: "torch \<Rightarrow> nat \<Rightarrow> nat \<Rightarrow> rank_state" where
  "init_state T K gbl_cnt =
     \<lparr>scr_buf = replicate gbl_cnt (replicate (2 * K) None),
      lbl_buf = alloc (empty T 0) gbl_cnt (2 * K),
      pos_cnt = replicate gbl_cnt 0\<rparr>"

text \<open>
  \<open>rank T data_src stream K\<close>: \<open>data_src\<close> is \<open>loader.data[edge_type].edge_label_index[0]\<close>,
  the source ids of all edges of the data set, \<open>stream\<close> the batches the loader yields and
  \<open>K\<close> is \<open>at_k\<close>. The result is \<open>(lbl_buf, pos_cnt)\<close>.
\<close>

definition rank ::
  "torch \<Rightarrow> nat list \<Rightarrow> batch list \<Rightarrow> nat \<Rightarrow> error + (real list list \<times> 32 word list)" where
  "rank T data_src stream K =
     (let gbl_uid = unique data_src
      in case rank_loop T K gbl_uid 0 stream (init_state T K (length gbl_uid)) of
           Inl e \<Rightarrow> Inl e
         | Inr st \<Rightarrow> Inr (lbl_buf st, pos_cnt st))"

subsection \<open>\<open>composite\<close>\<close>

text \<open>A metric function takes the label matrix (with its column count) and the counts.\<close>

type_synonym score_fn = "nat \<Rightarrow> real list list \<Rightarrow> int list \<Rightarrow> error + fval list"

fun collect :: "(error + 'a) list \<Rightarrow> error + 'a list" where
  "collect [] = Inr []"
| "collect (Inl e # _) = Inl e"
| "collect (Inr x # rs) = (case collect rs of Inl e \<Rightarrow> Inl e | Inr xs \<Rightarrow> Inr (x # xs))"

text \<open>\<open>[score_fn(labels, counts).mean() for score_fn in score_fns]\<close>\<close>

definition reduce_scores ::
  "score_fn list \<Rightarrow> nat \<Rightarrow> real list list \<Rightarrow> int list \<Rightarrow> error + fval list" where
  "reduce_scores score_fns cols labels counts =
     collect (map (\<lambda>f. case f cols labels counts of Inl e \<Rightarrow> Inl e | Inr v \<Rightarrow> Inr (fmean v))
                score_fns)"

definition composite ::
  "torch \<Rightarrow> nat list \<Rightarrow> batch list \<Rightarrow> nat \<Rightarrow> score_fn list \<Rightarrow> error + fval list" where
  "composite T data_src stream K score_fns =
     (case rank T data_src stream K of
        Inl e \<Rightarrow> Inl e
      | Inr (labels, counts) \<Rightarrow> reduce_scores score_fns (2 * K) labels (map sint counts))"

text \<open>The two metrics of the module as metric functions.\<close>

definition recall_fn :: score_fn where
  "recall_fn cols labels counts = recall_score labels counts"

definition ndcg_fn :: score_fn where
  "ndcg_fn cols labels counts = ndcg_score cols labels (Tens counts) None"

subsection \<open>A library instance\<close>

text \<open>One admissible behaviour of the library, for evaluating the model: a stable
  descending insertion sort, the first \<open>k\<close> positions of it as top-\<open>k\<close>, and a given
  content of uninitialised memory.\<close>

fun ins_desc :: "score list \<Rightarrow> nat \<Rightarrow> nat list \<Rightarrow> nat list" where
  "ins_desc xs i [] = [i]"
| "ins_desc xs i (j # js) = (if xs ! j < xs ! i then i # j # js else j # ins_desc xs i js)"

definition argsort_stable :: "score list \<Rightarrow> nat list" where
  "argsort_stable xs = foldl (\<lambda>acc i. ins_desc xs i acc) [] [0..<length xs]"

definition torch_stable :: "(nat \<Rightarrow> nat \<Rightarrow> nat \<Rightarrow> real) \<Rightarrow> torch" where
  "torch_stable mem =
     \<lparr>argsort = argsort_stable, topk = (\<lambda>k xs. take k (argsort_stable xs)), empty = mem\<rparr>"

text \<open>
  Another admissible behaviour, that of a sort which is not stable on long rows: a row
  of up to 16 entries is sorted by insertion, which keeps equal values in the order of
  their positions; on a longer row a partitioning step comes first, which exchanges the
  first entry with the middle one and then the entries after the first pairwise from
  both ends. Equal values of a long row so come out in the order \<open>pivot_order\<close>.
\<close>

definition pivot_order :: "nat \<Rightarrow> nat list" where
  "pivot_order n = (n div 2) # rev [Suc (n div 2)..<n] @ 0 # rev [1..<n div 2]"

definition argsort_part :: "score list \<Rightarrow> nat list" where
  "argsort_part xs =
     foldl (\<lambda>acc i. ins_desc xs i acc) []
       (if length xs \<le> 16 then [0..<length xs] else pivot_order (length xs))"

definition torch_part :: "(nat \<Rightarrow> nat \<Rightarrow> nat \<Rightarrow> real) \<Rightarrow> torch" where
  "torch_part mem =
     \<lparr>argsort = argsort_part, topk = (\<lambda>k xs. take k (argsort_stable xs)), empty = mem\<rparr>"

section \<open>Notions used in the properties of \<open>rank\<close>\<close>

text \<open>A row of scores in descending order.\<close>

abbreviation (input) desc :: "score list \<Rightarrow> bool" where
  "desc xs \<equiv> sorted_wrt (\<lambda>a b. b \<le> a) xs"

text \<open>The shape of the buffers, and every score row in descending order.\<close>

definition buf_inv :: "nat \<Rightarrow> nat \<Rightarrow> rank_state \<Rightarrow> bool" where
  "buf_inv K N st \<longleftrightarrow>
     length (scr_buf st) = N \<and> length (lbl_buf st) = N \<and> length (pos_cnt st) = N \<and>
     (\<forall>i<N. length (scr_buf st ! i) = 2 * K \<and> length (lbl_buf st ! i) = 2 * K \<and>
            desc (scr_buf st ! i))"

text \<open>The row of the temporary matrices that the mask assigns to row \<open>i\<close> of the buffers:
  the number of selected rows before it.\<close>

definition slot :: "nat list \<Rightarrow> batch \<Rightarrow> nat \<Rightarrow> nat" where
  "slot gbl b i = length (filter id (take i (gbl_msk_of gbl b)))"

text \<open>The rows of the registry that the mask of a batch selects, \<open>gbl_uid[gbl_msk]\<close>.\<close>

definition active_uids :: "nat list \<Rightarrow> batch \<Rightarrow> nat list" where
  "active_uids gbl b = filter (\<lambda>g. g \<in> set (src_ids_of b)) gbl"

text \<open>
  The numbering of a batch that the code relies on: with \<open>m\<close> the number of different
  source indices, every index is below \<open>m\<close> (so the indices are exactly \<open>0..m-1\<close>), the
  first \<open>m\<close> node ids of the batch are strictly ascending (index \<open>k\<close> stands for the
  \<open>k\<close>-th smallest id of the batch), and they are ids of the registry.
\<close>

definition n_active :: "batch \<Rightarrow> nat" where
  "n_active b = length (remdups (src_idx b))"

definition compact_batch :: "nat list \<Rightarrow> batch \<Rightarrow> bool" where
  "compact_batch gbl b \<longleftrightarrow>
     (\<forall>i\<in>set (src_idx b). i < n_active b) \<and> n_active b \<le> length (n_id b) \<and>
     sorted_wrt (\<lambda>x y. x < y) (take (n_active b) (n_id b)) \<and>
     (\<forall>u\<in>set (take (n_active b) (n_id b)). u \<in> set gbl)"

text \<open>Such a batch with at least one edge, one score and one label per edge.\<close>

definition wf_batch :: "nat list \<Rightarrow> batch \<Rightarrow> bool" where
  "wf_batch gbl b \<longleftrightarrow>
     compact_batch gbl b \<and> src_idx b \<noteq> [] \<and>
     length (edge_score b) = length (src_idx b) \<and> length (edge_label b) = length (src_idx b)"

text \<open>Such a batch whose edges come in ascending order of source index, the edges of one
  entity side by side, which is the order in which \<open>col_idx\<close> numbers the columns.\<close>

definition grouped_batch :: "nat list \<Rightarrow> batch \<Rightarrow> bool" where
  "grouped_batch gbl b \<longleftrightarrow> wf_batch gbl b \<and> sorted (src_idx b)"

text \<open>The scored items \<open>(score, label)\<close> of entity \<open>u\<close> in a batch and in a stream, in the
  order in which they arrive.\<close>

definition items_of :: "nat \<Rightarrow> batch \<Rightarrow> (real \<times> real) list" where
  "items_of u b =
     map snd (filter (\<lambda>p. fst p = u) (zip (src_ids_of b) (zip (edge_score b) (edge_label b))))"

definition stream_items :: "nat \<Rightarrow> batch list \<Rightarrow> (real \<times> real) list" where
  "stream_items u stream = concat (map (items_of u) stream)"

text \<open>The number of items of an entity with label 1, and the \<open>K\<close> best items in descending
  order of score.\<close>

definition pos_total :: "nat \<Rightarrow> batch list \<Rightarrow> nat" where
  "pos_total u stream = length (filter (\<lambda>p. snd p = 1) (stream_items u stream))"

definition best :: "nat \<Rightarrow> (real \<times> real) list \<Rightarrow> (real \<times> real) list" where
  "best K items = take K (sort_key (\<lambda>p. - fst p) items)"

text \<open>The entries of a buffer row (score and label side by side) that are not padding.\<close>

fun fin :: "(score \<times> real) list \<Rightarrow> (real \<times> real) list" where
  "fin [] = []"
| "fin ((None, l) # r) = fin r"
| "fin ((Some s, l) # r) = (s, l) # fin r"

text \<open>The scores of a row that are not padding.\<close>

fun fins :: "score list \<Rightarrow> real list" where
  "fins [] = []"
| "fins (None # r) = fins r"
| "fins (Some s # r) = s # fins r"

text \<open>The values \<open>vs\<close> of the edges whose source index is \<open>k\<close>, in the order of the edges.\<close>

definition group :: "nat list \<Rightarrow> 'a list \<Rightarrow> nat \<Rightarrow> 'a list" where
  "group xs vs k = map snd (filter (\<lambda>p. fst p = k) (zip xs vs))"

text \<open>Row \<open>i\<close> of the two buffers side by side, and what the loop maintains for an
  entity whose items so far are \<open>L\<close>: the entries of the row that are not padding are
  items of the entity, each at most as often as it arrived, and the scores among the first
  \<open>K\<close> entries are the \<open>K\<close> largest scores of the entity, in descending order.\<close>

definition prow :: "rank_state \<Rightarrow> nat \<Rightarrow> (score \<times> real) list" where
  "prow st i = zip (scr_buf st ! i) (lbl_buf st ! i)"

definition top_inv :: "nat \<Rightarrow> rank_state \<Rightarrow> nat \<Rightarrow> (real \<times> real) list \<Rightarrow> bool" where
  "top_inv K st i L \<longleftrightarrow>
     mset (fin (prow st i)) \<subseteq># mset L \<and>
     fins (take K (scr_buf st ! i)) = take K (rev (sort (map fst L)))"

section \<open>Properties of the metric functions\<close>

lemma log2_ge_1: "1 \<le> log 2 (real r + 2)"
proof -
  have "log 2 2 \<le> log 2 (real r + 2)"
    by (subst log_le_cancel_iff) simp_all
  then show ?thesis by simp
qed

lemma fsum_Fin_aux: "foldl fadd (Fin a) (map Fin xs) = Fin (a + sum_list xs)"
  by (induction xs arbitrary: a) (simp_all add: add.assoc)

lemma fsum_Fin: "fsum (map Fin xs) = Fin (sum_list xs)"
  by (simp add: fsum_def fsum_Fin_aux)

lemma sum_list_upt_nth: "sum_list (map f [0..<n]) = (\<Sum>r<n. f r)"
  by (simp add: interv_sum_list_conv_sum_set_nat atLeast0LessThan)

lemma log2_pos: "0 < log 2 (real r + 2)"
  using log2_ge_1 [of r] by linarith

lemma log2_neq0: "log 2 (real r + 2) \<noteq> 0"
  using log2_pos [of r] by linarith

lemma ndcg_num_default:
  assumes "length row = cnt"
  shows "fsum (map (\<lambda>(s, c). fdiv (Fin s) (Fin c)) (zip row (ndcg_coefs cnt))) = Fin (spec_dcg row)"
proof -
  have eq: "map (\<lambda>(s, c). fdiv (Fin s) (Fin c)) (zip row (ndcg_coefs cnt))
      = map Fin (map (\<lambda>r. row ! r / log 2 (real r + 2)) [0..<cnt])"
    using assms by (simp add: list_eq_iff_nth_eq ndcg_coefs_def log2_neq0)
  show ?thesis
    unfolding eq fsum_Fin sum_list_upt_nth spec_dcg_def using assms by simp
qed

lemma ndcg_den_default:
  "sum_list (ndcg_terms cnt (ndcg_coefs cnt) t) = code_ideal cnt t"
proof -
  let ?m = "nat (min t (int cnt))"
  have m: "?m \<le> cnt" by simp
  have "sum_list (ndcg_terms cnt (ndcg_coefs cnt) t)
      = (\<Sum>r<cnt. (if int r < min t (int cnt) then 1 else 0) * ndcg_coefs cnt ! r)"
    by (simp add: ndcg_terms_def sum_list_upt_nth)
  also have "\<dots> = (\<Sum>r<cnt. if r < ?m then log 2 (real r + 2) else 0)"
    by (rule sum.cong) (auto simp: ndcg_coefs_def)
  also have "\<dots> = (\<Sum>r\<in>{..<cnt} \<inter> {r. r < ?m}. log 2 (real r + 2))"
    by (simp add: sum.If_cases)
  also have "{..<cnt} \<inter> {r. r < ?m} = {..<?m}" using m by auto
  finally show ?thesis by (simp add: code_ideal_def)
qed

lemma fdiv_Fin_nz: "b \<noteq> 0 \<Longrightarrow> fdiv (Fin a) (Fin b) = Fin (a / b)"
  by simp

lemma ndcg_score_default:
  assumes "length tot = length score" and "\<forall>row\<in>set score. length row = cnt"
  shows "ndcg_score cnt score (Tens tot) None =
         Inr (map (\<lambda>(row, t). fdiv (Fin (spec_dcg row)) (Fin (code_ideal cnt t))) (zip score tot))"
proof -
  have e: "expand_last cnt (ndcg_coefs cnt) = Inr (ndcg_coefs cnt)"
    by (simp add: expand_last_def ndcg_coefs_def)
  have n: "map (\<lambda>row. fsum (map (\<lambda>(s, c). fdiv (Fin s) (Fin c)) (zip row (ndcg_coefs cnt)))) score
         = map (\<lambda>row. Fin (spec_dcg row)) score"
  proof (rule map_cong [OF refl])
    fix row assume "row \<in> set score"
    with assms(2) have "length row = cnt" by blast
    then show "fsum (map (\<lambda>(s, c). fdiv (Fin s) (Fin c)) (zip row (ndcg_coefs cnt))) = Fin (spec_dcg row)"
      by (rule ndcg_num_default)
  qed
  show ?thesis
    unfolding ndcg_score_def Let_def total_arg.case option.case e sum.case n ndcg_den_default
    using assms(1) by (simp add: broadcast2_def zip_map_map case_prod_unfold del: fdiv.simps)
qed

lemma code_ideal_ge:
  assumes "0 < p" and "0 < cnt"
  shows "1 \<le> code_ideal cnt p"
proof -
  let ?f = "\<lambda>r::nat. log 2 (real r + 2)"
  have "0 < nat (min p (int cnt))" using assms by simp
  then have "0 \<in> {..<nat (min p (int cnt))}" by simp
  then have "?f 0 \<le> sum ?f {..<nat (min p (int cnt))}"
    by (rule member_le_sum) (simp_all add: less_imp_le log2_pos)
  then show ?thesis by (simp add: code_ideal_def)
qed

lemma ratio_simp:
  fixes L :: real
  assumes "0 < L"
  shows "(1 + 1 / L) / (1 + L) = 1 / L"
proof -
  have "1 + 1 / L = (1 + L) / L" using assms by (simp add: field_simps)
  moreover have "1 + L \<noteq> 0" using assms by linarith
  ultimately show ?thesis by simp
qed

lemma log23_gt1: "1 < log 2 (3::real)"
  by (subst one_less_log_cancel_iff) simp_all

lemma inv_neq_1:
  fixes L :: real
  assumes "1 < L"
  shows "1 / L \<noteq> 1"
proof
  assume "1 / L = 1"
  moreover have "L \<noteq> 0" using assms by linarith
  ultimately have "L = 1" by (simp add: divide_eq_eq)
  with assms show False by linarith
qed

text \<open>
  Claim C3. For every entity with a positive count, \<open>ndcg_score\<close> is to return the
  discounted sum of the labels divided by the ideal sum of the weights
  \<open>1 / log2(r + 2)\<close>. The code multiplies the mask by the coefficients where the numerator
  divides by them, so its normaliser is the sum of \<open>log2(r + 2)\<close>: for the label row
  \<open>[1, 1]\<close> and two positives the formula gives 1 and the code \<open>1 / log2 3\<close>.
\<close>

theorem ndcg_score_normaliser_eval:
  "ndcg_score 2 [[1, 1]] (Tens [2]) None = Inr [Fin (1 / log 2 3)]
   \<and> spec_ndcg [1, 1] 2 = 1 \<and> 1 / log 2 (3::real) \<noteq> 1"
proof -
  have L: "0 < log 2 (3::real)" using log23_gt1 by linarith
  have d: "spec_dcg [1,1] = 1 + 1 / log 2 3"
    by (simp add: spec_dcg_def lessThan_Suc numeral_2_eq_2)
  have i: "code_ideal 2 2 = 1 + log 2 3"
    by (simp add: code_ideal_def lessThan_Suc numeral_2_eq_2)
  have nz: "1 + log 2 (3::real) \<noteq> 0" using L by linarith
  have "ndcg_score 2 [[1,1]] (Tens [2]) None
      = Inr [fdiv (Fin (spec_dcg [1,1])) (Fin (code_ideal 2 2))]"
    by (subst ndcg_score_default) simp_all
  also have "fdiv (Fin (spec_dcg [1,1])) (Fin (code_ideal 2 2)) = Fin (1 / log 2 3)"
    unfolding d i using fdiv_Fin_nz [OF nz] ratio_simp [OF L] by simp
  finally have code: "ndcg_score 2 [[1, 1]] (Tens [2]) None = Inr [Fin (1 / log 2 3)]" .
  have "0 < 1 + 1 / log 2 (3::real)" using L by (simp add: add_pos_pos)
  then have "1 + 1 / log 2 (3::real) \<noteq> 0" by linarith
  then have spec: "spec_ndcg [1, 1] 2 = 1"
    by (simp add: spec_ndcg_def spec_dcg_def spec_ideal_def lessThan_Suc numeral_2_eq_2)
  show ?thesis
    using code spec inv_neq_1 [OF log23_gt1] by blast
qed

lemma spec_dcg_nonneg:
  assumes "\<forall>x\<in>set row. 0 \<le> x"
  shows "0 \<le> spec_dcg row"
  unfolding spec_dcg_def
proof (rule sum_nonneg)
  fix r assume "r \<in> {..<length row}"
  then have "0 \<le> row ! r" using assms by simp
  then show "0 \<le> row ! r / log 2 (real r + 2)"
    using log2_pos [of r] by (simp add: divide_nonneg_pos)
qed

lemma spec_dcg_le_sum:
  assumes "\<forall>x\<in>set row. 0 \<le> x"
  shows "spec_dcg row \<le> sum_list row"
proof -
  have "spec_dcg row \<le> (\<Sum>r<length row. row ! r)"
    unfolding spec_dcg_def
  proof (rule sum_mono)
    fix r assume "r \<in> {..<length row}"
    then have "0 \<le> row ! r" using assms by simp
    then have "row ! r * 1 \<le> row ! r * log 2 (real r + 2)"
      using log2_ge_1 [of r] by (rule mult_left_mono [rotated])
    then show "row ! r / log 2 (real r + 2) \<le> row ! r"
      using log2_pos [of r] by (simp add: divide_le_eq)
  qed
  also have "\<dots> = sum_list row"
    by (simp add: sum_list_sum_nth atLeast0LessThan)
  finally show ?thesis .
qed

lemma sum_list_le_length:
  fixes row :: "real list"
  assumes "\<forall>x\<in>set row. x \<le> 1"
  shows "sum_list row \<le> real (length row)"
  using assms by (induction row) auto

lemma code_ideal_ge_card: "real (nat (min p (int cnt))) \<le> code_ideal cnt p"
proof -
  have "(\<Sum>r<nat (min p (int cnt)). (1::real)) \<le> code_ideal cnt p"
    unfolding code_ideal_def by (rule sum_mono) (rule log2_ge_1)
  then show ?thesis by simp
qed

text \<open>
  Claim C6 (amended). For an entity with a positive count, at least one column, and a
  binary label row holding at most as many ones as the entity has positives,
  \<open>ndcg_score\<close> returns a number in \<open>[0, 1]\<close>. Without the bound on the number of ones
  the result can exceed 1: the label row \<open>[1, 1]\<close> with one positive gives
  \<open>1 + 1 / log2 3\<close>.
\<close>

theorem ndcg_score_bounds:
  assumes shape: "length tot = length score" "\<forall>row\<in>set score. length row = cnt"
    and i: "i < length score" and cnt: "0 < cnt" and pos: "0 < tot ! i"
    and bin: "set (score ! i) \<subseteq> {0, 1}"
    and ones: "sum_list (score ! i) \<le> real_of_int (tot ! i)"
  shows "\<exists>rs v. ndcg_score cnt score (Tens tot) None = Inr rs \<and> length rs = length score
           \<and> rs ! i = Fin v \<and> 0 \<le> v \<and> v \<le> 1"
proof -
  let ?row = "score ! i" and ?p = "tot ! i"
  have len: "length ?row = cnt" using shape(2) i by simp
  have nn: "\<forall>x\<in>set ?row. 0 \<le> x" and le1: "\<forall>x\<in>set ?row. x \<le> 1"
    using bin by auto
  have d1: "1 \<le> code_ideal cnt ?p" using pos cnt by (rule code_ideal_ge)
  then have dnz: "code_ideal cnt ?p \<noteq> 0" and dpos: "0 < code_ideal cnt ?p" by linarith+
  have "sum_list ?row \<le> real (nat (min ?p (int cnt)))"
    using ones sum_list_le_length [OF le1] len pos by (simp add: min_def)
  then have "spec_dcg ?row \<le> code_ideal cnt ?p"
    using spec_dcg_le_sum [OF nn] code_ideal_ge_card [of ?p cnt] by linarith
  then have up: "spec_dcg ?row / code_ideal cnt ?p \<le> 1"
    using dpos by (simp add: divide_le_eq)
  have lo: "0 \<le> spec_dcg ?row / code_ideal cnt ?p"
    using spec_dcg_nonneg [OF nn] dpos by (simp add: divide_nonneg_pos)
  let ?rs = "map (\<lambda>(row, t). fdiv (Fin (spec_dcg row)) (Fin (code_ideal cnt t))) (zip score tot)"
  have "ndcg_score cnt score (Tens tot) None = Inr ?rs"
    using shape by (rule ndcg_score_default)
  moreover have "length ?rs = length score" using shape(1) by simp
  moreover have "?rs ! i = Fin (spec_dcg ?row / code_ideal cnt ?p)"
    using i shape(1) fdiv_Fin_nz [OF dnz] by (simp del: fdiv.simps)
  ultimately show ?thesis using lo up by blast
qed

theorem ndcg_score_bounds_witness:
  "\<exists>rs v. ndcg_score 2 [[1, 0]] (Tens [1]) None = Inr rs \<and> length rs = length [[1, 0::real]]
           \<and> rs ! 0 = Fin v \<and> 0 \<le> v \<and> v \<le> 1"
  using ndcg_score_bounds [of "[1]" "[[1, 0]]" 2 0] by simp

theorem ndcg_score_bounds_counterexample:
  "ndcg_score 2 [[1, 1]] (Tens [1]) None = Inr [Fin (1 + 1 / log 2 3)]
   \<and> 1 < 1 + 1 / log 2 (3::real)"
proof -
  have L: "0 < log 2 (3::real)" using log23_gt1 by linarith
  have d: "spec_dcg [1,1] = 1 + 1 / log 2 3"
    by (simp add: spec_dcg_def lessThan_Suc numeral_2_eq_2)
  have i: "code_ideal 2 1 = 1"
    by (simp add: code_ideal_def)
  have "ndcg_score 2 [[1,1]] (Tens [1]) None
      = Inr [fdiv (Fin (spec_dcg [1,1])) (Fin (code_ideal 2 1))]"
    by (subst ndcg_score_default) simp_all
  then have "ndcg_score 2 [[1, 1]] (Tens [1]) None = Inr [Fin (1 + 1 / log 2 3)]"
    unfolding d i by simp
  moreover have "1 < 1 + 1 / log 2 (3::real)" using L by simp
  ultimately show ?thesis by blast
qed

lemma ndcg_score_int_default:
  assumes cols: "\<forall>row\<in>set score. length row = cnt"
  shows "ndcg_score cnt score (PyInt n) None =
          (if length score = cnt \<or> length score = 1 \<or> cnt = 1
           then Inr (map (\<lambda>row. Fin (spec_dcg row / code_ideal cnt (int cnt)))
                      (if length score = 1 then replicate cnt (hd score) else score))
           else Inl ShapeError)"
proof -
  let ?d = "code_ideal cnt (int cnt)"
  have e: "expand_last cnt (ndcg_coefs cnt) = Inr (ndcg_coefs cnt)"
    by (simp add: expand_last_def ndcg_coefs_def)
  have n: "map (\<lambda>row. fsum (map (\<lambda>(s, c). fdiv (Fin s) (Fin c)) (zip row (ndcg_coefs cnt)))) score
         = map (\<lambda>row. Fin (spec_dcg row)) score"
  proof (rule map_cong [OF refl])
    fix row assume "row \<in> set score"
    with cols have "length row = cnt" by blast
    then show "fsum (map (\<lambda>(s, c). fdiv (Fin s) (Fin c)) (zip row (ndcg_coefs cnt))) = Fin (spec_dcg row)"
      by (rule ndcg_num_default)
  qed
  have r: "ndcg_score cnt score (PyInt n) None =
      (case broadcast2 (map (\<lambda>row. Fin (spec_dcg row)) score) (replicate cnt ?d) of
         Inl e \<Rightarrow> Inl e
       | Inr ps \<Rightarrow> Inr (map (\<lambda>(n, d). fdiv n (Fin d)) ps))"
    unfolding ndcg_score_def Let_def total_arg.case option.case e sum.case n
    by (simp add: ndcg_den_default del: fdiv.simps)
  show ?thesis
  proof (cases "cnt = 0")
    case True
    then show ?thesis unfolding r by (auto simp: broadcast2_def)
  next
    case False
    then have "1 \<le> ?d" by (intro code_ideal_ge) simp_all
    then have nz: "?d \<noteq> 0" by linarith
    have q: "fdiv (Fin a) (Fin ?d) = Fin (a / ?d)" for a
      using nz by (rule fdiv_Fin_nz)
    have z: "zip xs (replicate (length xs) y) = map (\<lambda>x. (x, y)) xs" for xs :: "'a list" and y :: 'b
      by (induction xs) simp_all
    have F: "map (\<lambda>(n, d). fdiv n (Fin d)) (map (\<lambda>x. (x, ?d)) (map (\<lambda>row. Fin (spec_dcg row)) rows))
           = map (\<lambda>row. Fin (spec_dcg row / ?d)) rows" for rows
      by (simp add: q comp_def del: fdiv.simps)
    let ?nums = "map (\<lambda>row. Fin (spec_dcg row)) score"
    consider (sq) "length score = cnt" | (one) "length score \<noteq> cnt" "length score = 1"
      | (col) "length score \<noteq> cnt" "length score \<noteq> 1" "cnt = 1"
      | (bad) "length score \<noteq> cnt" "length score \<noteq> 1" "cnt \<noteq> 1"
      by blast
    then show ?thesis
    proof cases
      case sq
      have "broadcast2 ?nums (replicate cnt ?d) = Inr (zip ?nums (replicate (length ?nums) ?d))"
        using sq by (simp add: broadcast2_def)
      then have b: "broadcast2 ?nums (replicate cnt ?d)
          = Inr (map (\<lambda>x. (x, ?d)) (map (\<lambda>row. Fin (spec_dcg row)) score))"
        by (simp only: z)
      have "(if length score = 1 then replicate cnt (hd score) else score) = score"
        using sq by (cases score) auto
      then show ?thesis
        unfolding r b sum.case F using sq by simp
    next
      case one
      then obtain row where s: "score = [row]" by (cases score) simp_all
      have "broadcast2 ?nums (replicate cnt ?d)
          = Inr (map (\<lambda>y. (Fin (spec_dcg row), y)) (replicate cnt ?d))"
        using one by (simp add: broadcast2_def s)
      then have b: "broadcast2 ?nums (replicate cnt ?d)
          = Inr (map (\<lambda>x. (x, ?d)) (map (\<lambda>row. Fin (spec_dcg row)) (replicate cnt row)))"
        by simp
      show ?thesis
        unfolding r b sum.case F using one by (simp add: s)
    next
      case col
      have "broadcast2 ?nums (replicate cnt ?d) = Inr (map (\<lambda>x. (x, hd (replicate cnt ?d))) ?nums)"
        using col by (simp add: broadcast2_def)
      moreover have "hd (replicate cnt ?d) = ?d" using False by (cases cnt) simp_all
      ultimately have b: "broadcast2 ?nums (replicate cnt ?d)
          = Inr (map (\<lambda>x. (x, ?d)) (map (\<lambda>row. Fin (spec_dcg row)) score))"
        by (simp only:)
      show ?thesis
        unfolding r b sum.case F using col by simp
    next
      case bad
      then show ?thesis unfolding r by (simp add: broadcast2_def)
    qed
  qed
qed

text \<open>
  Claim C10 (amended). Given a Python integer as \<open>total\<close>, \<open>ndcg_score\<close> behaves as on the
  tensor of length \<open>count\<close> whose entries all are \<open>count\<close>, whatever the integer is. With
  the default coefficients the call returns only for a matrix with as many rows as
  columns, with one row, or with one column. Every entry of the result is then the
  discounted sum of a row divided by the normaliser that the code computes for \<open>count\<close>
  positives, the sum of all \<open>count\<close> coefficients; for a matrix of one row these are
  \<open>count\<close> entries with that row's value. For every other shape the call raises a shape
  error, because the vector of length \<open>count\<close> does not broadcast against the rows.
\<close>

theorem ndcg_score_int_total:
  "ndcg_score cnt score (PyInt n) coefs
     = ndcg_score cnt score (Tens (replicate cnt (int cnt))) coefs
   \<and> ((\<forall>row\<in>set score. length row = cnt) \<longrightarrow>
        ndcg_score cnt score (PyInt n) None =
          (if length score = cnt \<or> length score = 1 \<or> cnt = 1
           then Inr (map (\<lambda>row. Fin (spec_dcg row / code_ideal cnt (int cnt)))
                      (if length score = 1 then replicate cnt (hd score) else score))
           else Inl ShapeError))"
proof (intro conjI impI)
  show "ndcg_score cnt score (PyInt n) coefs
      = ndcg_score cnt score (Tens (replicate cnt (int cnt))) coefs"
    by (simp add: ndcg_score_def)
next
  assume "\<forall>row\<in>set score. length row = cnt"
  then show "ndcg_score cnt score (PyInt n) None =
          (if length score = cnt \<or> length score = 1 \<or> cnt = 1
           then Inr (map (\<lambda>row. Fin (spec_dcg row / code_ideal cnt (int cnt)))
                      (if length score = 1 then replicate cnt (hd score) else score))
           else Inl ShapeError)"
    by (rule ndcg_score_int_default)
qed

theorem ndcg_score_int_total_witness:
  "ndcg_score 2 [[1, 0], [0, 1]] (PyInt 1) None
     = Inr [Fin (1 / (1 + log 2 3)), Fin (1 / log 2 3 / (1 + log 2 3))]
   \<and> ndcg_score 2 [[1, 0], [0, 1]] (Tens [1, 1]) None = Inr [Fin 1, Fin (1 / log 2 3)]
   \<and> ndcg_score 2 [[1, 0]] (PyInt 1) None
     = Inr [Fin (1 / (1 + log 2 3)), Fin (1 / (1 + log 2 3))]"
proof -
  have L: "0 < log 2 (3::real)" using log23_gt1 by linarith
  have d: "spec_dcg [1, 0] = 1" "spec_dcg [0, 1] = 1 / log 2 3"
    by (simp_all add: spec_dcg_def lessThan_Suc numeral_2_eq_2)
  have c: "code_ideal 2 (int 2) = 1 + log 2 3" "code_ideal 2 1 = 1"
    by (simp_all add: code_ideal_def lessThan_Suc numeral_2_eq_2)
  have cols: "\<forall>row\<in>set [[1, 0], [0, 1 :: real]]. length row = 2" by simp
  have cols1: "\<forall>row\<in>set [[1, 0 :: real]]. length row = 2" by simp
  from ndcg_score_int_total [of 2 "[[1, 0], [0, 1]]" 1 None, THEN conjunct2, THEN mp, OF cols]
  have a: "ndcg_score 2 [[1, 0], [0, 1]] (PyInt 1) None
     = Inr [Fin (1 / (1 + log 2 3)), Fin (1 / log 2 3 / (1 + log 2 3))]"
    unfolding c by (simp add: d)
  from ndcg_score_int_total [of 2 "[[1, 0]]" 1 None, THEN conjunct2, THEN mp, OF cols1]
  have b: "ndcg_score 2 [[1, 0]] (PyInt 1) None
     = Inr [Fin (1 / (1 + log 2 3)), Fin (1 / (1 + log 2 3))]"
    unfolding c by (simp add: d numeral_2_eq_2)
  have "ndcg_score 2 [[1, 0], [0, 1]] (Tens [1, 1]) None
      = Inr [fdiv (Fin (spec_dcg [1, 0])) (Fin (code_ideal 2 1)),
             fdiv (Fin (spec_dcg [0, 1])) (Fin (code_ideal 2 1))]"
    by (subst ndcg_score_default) simp_all
  then have t: "ndcg_score 2 [[1, 0], [0, 1]] (Tens [1, 1]) None = Inr [Fin 1, Fin (1 / log 2 3)]"
    unfolding d c by simp
  from a t b show ?thesis by blast
qed

theorem ndcg_score_int_total_counterexample:
  "ndcg_score 3 [[1, 0, 0], [0, 1, 0]] (PyInt 3) None = Inl ShapeError"
  by (simp add: ndcg_score_def expand_last_def ndcg_coefs_def broadcast2_def)

lemma fadd_NaN_right: "fadd a NaN = NaN"
  by (cases a) simp_all

lemma fadd_nonfin_left: "\<not> is_fin a \<Longrightarrow> \<not> is_fin (fadd a b)"
  by (cases a; cases b) (simp_all add: is_fin_def)

lemma fadd_nonfin_right: "\<not> is_fin b \<Longrightarrow> \<not> is_fin (fadd a b)"
  by (cases a; cases b) (simp_all add: is_fin_def)

lemma foldl_fadd_NaN: "foldl fadd NaN xs = NaN"
  by (induction xs) simp_all

lemma foldl_fadd_nonfin: "\<not> is_fin a \<Longrightarrow> \<not> is_fin (foldl fadd a xs)"
  by (induction xs arbitrary: a) (simp_all add: fadd_nonfin_left)

lemma fsum_has_NaN: "NaN \<in> set xs \<Longrightarrow> foldl fadd a xs = NaN"
proof (induction xs arbitrary: a)
  case Nil
  then show ?case by simp
next
  case (Cons x xs)
  then show ?case by (auto simp: fadd_NaN_right foldl_fadd_NaN)
qed

lemma fsum_has_nonfin: "x \<in> set xs \<Longrightarrow> \<not> is_fin x \<Longrightarrow> \<not> is_fin (foldl fadd a xs)"
proof (induction xs arbitrary: a)
  case Nil
  then show ?case by simp
next
  case (Cons y ys)
  then show ?case by (auto simp: fadd_nonfin_right foldl_fadd_nonfin)
qed

lemma fmean_has_NaN: "NaN \<in> set xs \<Longrightarrow> fmean xs = NaN"
  by (simp add: fmean_def fsum_def fsum_has_NaN)

lemma fdiv_nonfin: "\<not> is_fin a \<Longrightarrow> \<not> is_fin (fdiv a (Fin b))"
  by (cases a) (simp_all add: is_fin_def)

lemma fmean_has_nonfin: "x \<in> set xs \<Longrightarrow> \<not> is_fin x \<Longrightarrow> \<not> is_fin (fmean xs)"
  unfolding fmean_def fsum_def by (intro fdiv_nonfin fsum_has_nonfin)

text \<open>
  Claim C5 (amended). For an entity whose count is zero \<open>recall_score\<close> performs the float
  division all the same: the entity's value is an infinity or not-a-number, and the mean
  that the reducer takes over all entities is not a number either (it is not-a-number when
  the entity's label row sums to zero). Nothing marks or excludes the entity.
\<close>

theorem recall_score_zero_count:
  assumes "length tot = length score" and "i < length score" and "tot ! i = 0"
  shows "\<exists>rs m. recall_score score tot = Inr rs \<and> length rs = length score
           \<and> rs ! i = div0 (sum_list (score ! i))
           \<and> reduce_scores [recall_fn] cols score tot = Inr [m] \<and> \<not> is_fin m
           \<and> (sum_list (score ! i) = 0 \<longrightarrow> m = NaN)"
proof -
  let ?rs = "map (\<lambda>(s, t). fdiv (Fin s) (Fin (real_of_int t))) (zip (map sum_list score) tot)"
  have r: "recall_score score tot = Inr ?rs"
    using assms(1) by (simp add: recall_score_def broadcast2_def)
  have len: "length ?rs = length score" using assms(1) by simp
  have at: "?rs ! i = div0 (sum_list (score ! i))"
    using assms by (simp add: div0_def)
  have mem: "?rs ! i \<in> set ?rs" using len assms(2) by (metis nth_mem)
  have "\<not> is_fin (div0 x)" for x by (simp add: div0_def is_fin_def)
  then have nf: "\<not> is_fin (?rs ! i)" unfolding at .
  have red: "reduce_scores [recall_fn] cols score tot = Inr [fmean ?rs]"
    by (simp add: reduce_scores_def recall_fn_def r)
  have m1: "\<not> is_fin (fmean ?rs)" using mem nf by (rule fmean_has_nonfin)
  have m2: "fmean ?rs = NaN" if "sum_list (score ! i) = 0"
  proof -
    have "div0 (sum_list (score ! i)) = NaN" using that by (simp add: div0_def)
    then have "?rs ! i = NaN" unfolding at .
    with mem have "NaN \<in> set ?rs" by simp
    then show ?thesis by (rule fmean_has_NaN)
  qed
  show ?thesis using r len at red m1 m2 by blast
qed

theorem recall_score_zero_count_witness:
  "\<exists>rs m. recall_score [[1], [0]] [1, 0] = Inr rs \<and> length rs = length [[1], [0::real]]
           \<and> rs ! 1 = div0 (sum_list ([[1], [0]] ! 1))
           \<and> reduce_scores [recall_fn] 1 [[1], [0]] [1, 0] = Inr [m] \<and> \<not> is_fin m
           \<and> (sum_list ([[1], [0::real]] ! 1) = 0 \<longrightarrow> m = NaN)"
  using recall_score_zero_count [of "[1, 0]" "[[1], [0]]" 1 1] by simp

theorem recall_mean_counterexample:
  "recall_score [[1], [0]] [1, 0] = Inr [Fin 1, NaN]
   \<and> reduce_scores [recall_fn] 1 [[1], [0]] [1, 0] = Inr [NaN]"
  by (simp add: recall_score_def broadcast2_def reduce_scores_def recall_fn_def fmean_def fsum_def)

section \<open>Properties of \<open>rank\<close>\<close>

subsection \<open>Rows, masks and one step\<close>

lemma desc_unique:
  fixes xs ys :: "score list"
  assumes "mset xs = mset ys" "desc xs" "desc ys"
  shows "xs = ys"
proof -
  have "sorted (rev xs)" "sorted (rev ys)"
    using assms(2,3) by (simp_all add: sorted_wrt_rev)
  moreover have "mset (rev xs) = mset (rev ys)" using assms(1) by simp
  ultimately have "rev xs = rev ys"
    by (metis properties_for_sort)
  then show ?thesis by simp
qed

lemma mset_gather:
  assumes "mset p = mset [0..<length xs]"
  shows "mset (gather xs p) = mset xs"
proof -
  have "mset (gather xs p) = image_mset (\<lambda>i. xs ! i) (mset p)"
    by (simp add: gather_def)
  also have "\<dots> = mset (map (\<lambda>i. xs ! i) [0..<length xs])"
    unfolding assms by simp
  finally show ?thesis by (simp add: map_nth)
qed

lemma length_gather [simp]: "length (gather xs p) = length p"
  by (simp add: gather_def)

lemma argsort_ok_length: "argsort_ok srt \<Longrightarrow> length (srt xs) = length xs"
  unfolding argsort_ok_def by (metis size_mset length_upt diff_zero)

lemma argsort_ok_mset: "argsort_ok srt \<Longrightarrow> mset (srt xs) = mset [0..<length xs]"
  unfolding argsort_ok_def by blast

lemma argsort_ok_desc: "argsort_ok srt \<Longrightarrow> desc (gather xs (srt xs))"
  unfolding argsort_ok_def gather_def by blast

lemma argsort_sorted_id:
  assumes "argsort_ok srt" "desc xs"
  shows "gather xs (srt xs) = xs"
  by (rule desc_unique) (simp_all add: assms mset_gather argsort_ok_mset argsort_ok_desc)

lemma masked_upd_length [simp]: "length (masked_upd f ms xs ts) = length xs"
  by (induction f ms xs ts rule: masked_upd.induct) simp_all

lemma masked_upd_inactive:
  "i < length xs \<Longrightarrow> i < length ms \<Longrightarrow> \<not> ms ! i \<Longrightarrow> masked_upd f ms xs ts ! i = xs ! i"
proof (induction f ms xs ts arbitrary: i rule: masked_upd.induct)
  case (1 f ms x xs t ts)
  then show ?case by (cases i) simp_all
next
  case (2 f ms x xs ts)
  then show ?case by (cases i) simp_all
qed simp_all

lemma masked_upd_active:
  "i < length xs \<Longrightarrow> i < length ms \<Longrightarrow> ms ! i \<Longrightarrow>
   length (filter id (take (Suc i) ms)) \<le> length ts \<Longrightarrow>
   masked_upd f ms xs ts ! i = f (xs ! i) (ts ! length (filter id (take i ms)))"
proof (induction f ms xs ts arbitrary: i rule: masked_upd.induct)
  case (1 f ms x xs t ts)
  then show ?case by (cases i) simp_all
next
  case (2 f ms x xs ts)
  then show ?case by (cases i) simp_all
qed simp_all

lemma filter_take_le: "length (filter P (take n xs)) \<le> length (filter P xs)"
proof -
  have "length (filter P xs) = length (filter P (take n xs)) + length (filter P (drop n xs))"
    by (metis append_take_drop_id filter_append length_append)
  then show ?thesis by simp
qed

lemma filter_take_Suc_less:
  assumes "i < length xs" "P (xs ! i)"
  shows "length (filter P (take i xs)) < length (filter P xs)"
proof -
  have "length (filter P (take (Suc i) xs)) = Suc (length (filter P (take i xs)))"
    using assms by (simp add: take_Suc_conv_app_nth)
  then show ?thesis
    using filter_take_le [of P "Suc i" xs] by simp
qed

lemma gather_rows_length [simp]: "length (gather_rows m idx) = min (length m) (length idx)"
  by (simp add: gather_rows_def)

lemma gather_rows_nth:
  "i < length m \<Longrightarrow> i < length idx \<Longrightarrow> gather_rows m idx ! i = gather (m ! i) (idx ! i)"
  by (simp add: gather_rows_def)

lemma index_put_length [simp]: "length (index_put m ps vs) = length m"
  by (induction m ps vs rule: index_put.induct) simp_all

lemma index_put_row_length:
  "i < length m \<Longrightarrow> length (index_put m ps vs ! i) = length (m ! i)"
proof (induction m ps vs rule: index_put.induct)
  case (1 m r c ps v vs)
  then show ?case by (cases "r = i") simp_all
qed simp_all

lemma scr_tmp_shape:
  "length (scr_tmp_of K gbl b vals) = row_cnt_of gbl b"
  "r < row_cnt_of gbl b \<Longrightarrow> length (scr_tmp_of K gbl b vals ! r) = col_cnt_of K b"
  by (simp_all add: scr_tmp_of_def index_put_row_length)

lemma lbl_tmp_shape:
  "length (lbl_tmp_of mem K gbl b vals) = row_cnt_of gbl b"
  "r < row_cnt_of gbl b \<Longrightarrow> length (lbl_tmp_of mem K gbl b vals ! r) = col_cnt_of K b"
  by (simp_all add: lbl_tmp_of_def index_put_row_length alloc_def)

lemma K_le_col_cnt: "K \<le> col_cnt_of K b"
  by (simp add: col_cnt_of_def)

lemma topk_ok_length: "topk_ok tk \<Longrightarrow> k \<le> length xs \<Longrightarrow> length (tk k xs) = k"
  unfolding topk_ok_def by blast

text \<open>What a successful step did, row by row.\<close>

lemma rank_step_rows:
  assumes ok: "rank_step T K gbl bno b st = Inr st'"
  obtains scores labels where
    "expand_last (length (src_idx b)) (edge_score b) = Inr scores"
    "expand_last (length (src_idx b)) (edge_label b) = Inr labels"
    "src_idx b \<noteq> []"
    "\<forall>i\<in>set (src_idx b). i < length (n_id b)"
    "\<forall>i\<in>set (src_idx b). i < row_cnt_of gbl b"
    "length (src_idx b) \<le> length (edge_label b)"
    "scr_buf st' = gather_rows
        (masked_upd (\<lambda>row new. take K row @ new) (gbl_msk_of gbl b) (scr_buf st)
           (gather_rows (scr_tmp_of K gbl b scores) (map (topk T K) (scr_tmp_of K gbl b scores))))
        (map (argsort T)
          (masked_upd (\<lambda>row new. take K row @ new) (gbl_msk_of gbl b) (scr_buf st)
           (gather_rows (scr_tmp_of K gbl b scores) (map (topk T K) (scr_tmp_of K gbl b scores)))))"
    "lbl_buf st' = gather_rows
        (masked_upd (\<lambda>row new. take K row @ new) (gbl_msk_of gbl b) (lbl_buf st)
           (gather_rows (lbl_tmp_of (empty T (Suc bno)) K gbl b labels)
              (map (topk T K) (scr_tmp_of K gbl b scores))))
        (map (argsort T)
          (masked_upd (\<lambda>row new. take K row @ new) (gbl_msk_of gbl b) (scr_buf st)
           (gather_rows (scr_tmp_of K gbl b scores) (map (topk T K) (scr_tmp_of K gbl b scores)))))"
    "pos_cnt st' = masked_upd (\<lambda>c d. c + d) (gbl_msk_of gbl b) (pos_cnt st)
        (scatter_add (replicate (row_cnt_of gbl b) 0) (src_idx b) (map to_int32 (edge_label b)))"
  using ok unfolding rank_step_def Let_def
  by (auto split: if_splits sum.splits simp: not_le not_less)

lemma set_unique [simp]: "set (unique xs) = set xs"
  by (simp add: unique_def)

lemma gbl_msk_length [simp]: "length (gbl_msk_of gbl b) = length gbl"
  by (simp add: gbl_msk_of_def)

lemma gbl_msk_nth: "i < length gbl \<Longrightarrow> gbl_msk_of gbl b ! i \<longleftrightarrow> gbl ! i \<in> set (src_ids_of b)"
  by (simp add: gbl_msk_of_def)

lemma slot_less:
  "i < length gbl \<Longrightarrow> gbl ! i \<in> set (src_ids_of b) \<Longrightarrow> slot gbl b i < row_cnt_of gbl b"
  unfolding slot_def row_cnt_of_def
  by (rule filter_take_Suc_less) (simp_all add: gbl_msk_nth)

lemma masked_upd_nth:
  assumes "i < length xs" "length ms = length xs" "length ts = length (filter id ms)"
  shows "masked_upd f ms xs ts ! i =
         (if ms ! i then f (xs ! i) (ts ! length (filter id (take i ms))) else xs ! i)"
proof (cases "ms ! i")
  case True
  have "length (filter id (take (Suc i) ms)) \<le> length ts"
    unfolding assms(3) by (rule filter_take_le)
  with True assms show ?thesis by (simp add: masked_upd_active)
next
  case False
  with assms show ?thesis by (simp add: masked_upd_inactive)
qed

text \<open>The rows of the merged buffers before sorting.\<close>

lemma merged_row:
  assumes "i < length buf" "length buf = length gbl" "length tp = row_cnt_of gbl b"
  shows "masked_upd (\<lambda>row new. take K row @ new) (gbl_msk_of gbl b) buf tp ! i =
         (if gbl ! i \<in> set (src_ids_of b) then take K (buf ! i) @ tp ! slot gbl b i else buf ! i)"
  using assms by (subst masked_upd_nth) (simp_all add: row_cnt_of_def gbl_msk_nth slot_def)

lemma scr_top_row:
  assumes "topk_ok (topk T)" "r < row_cnt_of gbl b"
  shows "length (gather_rows (scr_tmp_of K gbl b scores) (map (topk T K) (scr_tmp_of K gbl b scores)) ! r) = K"
  using assms by (simp add: gather_rows_nth scr_tmp_shape topk_ok_length K_le_col_cnt)

lemma lbl_top_row:
  assumes "topk_ok (topk T)" "r < row_cnt_of gbl b"
  shows "length (gather_rows (lbl_tmp_of mem K gbl b labels) (map (topk T K) (scr_tmp_of K gbl b scores)) ! r) = K"
  using assms by (simp add: gather_rows_nth scr_tmp_shape lbl_tmp_shape topk_ok_length K_le_col_cnt)

lemma rank_step_row:
  assumes ok: "rank_step T K gbl bno b st = Inr st'"
    and inv: "buf_inv K (length gbl) st" and i: "i < length gbl"
  obtains srow lrow where
    "scr_buf st' ! i = gather srow (argsort T srow)"
    "lbl_buf st' ! i = gather lrow (argsort T srow)"
    "gbl ! i \<notin> set (src_ids_of b) \<Longrightarrow> srow = scr_buf st ! i \<and> lrow = lbl_buf st ! i"
    "topk_ok (topk T) \<Longrightarrow> length srow = 2 * K \<and> length lrow = 2 * K"
    "length (scr_buf st') = length gbl" "length (lbl_buf st') = length gbl"
    "length (pos_cnt st') = length gbl"
    "gbl ! i \<notin> set (src_ids_of b) \<Longrightarrow> pos_cnt st' ! i = pos_cnt st ! i"
proof -
  from ok obtain scores labels where
    s: "scr_buf st' = gather_rows
        (masked_upd (\<lambda>row new. take K row @ new) (gbl_msk_of gbl b) (scr_buf st)
           (gather_rows (scr_tmp_of K gbl b scores) (map (topk T K) (scr_tmp_of K gbl b scores))))
        (map (argsort T)
          (masked_upd (\<lambda>row new. take K row @ new) (gbl_msk_of gbl b) (scr_buf st)
           (gather_rows (scr_tmp_of K gbl b scores) (map (topk T K) (scr_tmp_of K gbl b scores)))))"
    and l: "lbl_buf st' = gather_rows
        (masked_upd (\<lambda>row new. take K row @ new) (gbl_msk_of gbl b) (lbl_buf st)
           (gather_rows (lbl_tmp_of (empty T (Suc bno)) K gbl b labels)
              (map (topk T K) (scr_tmp_of K gbl b scores))))
        (map (argsort T)
          (masked_upd (\<lambda>row new. take K row @ new) (gbl_msk_of gbl b) (scr_buf st)
           (gather_rows (scr_tmp_of K gbl b scores) (map (topk T K) (scr_tmp_of K gbl b scores)))))"
    and p: "pos_cnt st' = masked_upd (\<lambda>c d. c + d) (gbl_msk_of gbl b) (pos_cnt st)
        (scatter_add (replicate (row_cnt_of gbl b) 0) (src_idx b) (map to_int32 (edge_label b)))"
    by (rule rank_step_rows)
  let ?stop = "gather_rows (scr_tmp_of K gbl b scores) (map (topk T K) (scr_tmp_of K gbl b scores))"
  let ?ltop = "gather_rows (lbl_tmp_of (empty T (Suc bno)) K gbl b labels)
              (map (topk T K) (scr_tmp_of K gbl b scores))"
  let ?snew = "masked_upd (\<lambda>row new. take K row @ new) (gbl_msk_of gbl b) (scr_buf st) ?stop"
  let ?lnew = "masked_upd (\<lambda>row new. take K row @ new) (gbl_msk_of gbl b) (lbl_buf st) ?ltop"
  from inv have len: "length (scr_buf st) = length gbl" "length (lbl_buf st) = length gbl"
    "length (pos_cnt st) = length gbl"
    and rows: "length (scr_buf st ! i) = 2 * K" "length (lbl_buf st ! i) = 2 * K"
    using i by (simp_all add: buf_inv_def)
  have ltop: "length ?stop = row_cnt_of gbl b" "length ?ltop = row_cnt_of gbl b"
    by (simp_all add: scr_tmp_shape lbl_tmp_shape)
  have srow: "?snew ! i = (if gbl ! i \<in> set (src_ids_of b)
        then take K (scr_buf st ! i) @ ?stop ! slot gbl b i else scr_buf st ! i)"
    using i len ltop by (intro merged_row) simp_all
  have lrow: "?lnew ! i = (if gbl ! i \<in> set (src_ids_of b)
        then take K (lbl_buf st ! i) @ ?ltop ! slot gbl b i else lbl_buf st ! i)"
    using i len ltop by (intro merged_row) simp_all
  show ?thesis
  proof (rule that [of "?snew ! i" "?lnew ! i"])
    show "scr_buf st' ! i = gather (?snew ! i) (argsort T (?snew ! i))"
      unfolding s using i len by (simp add: gather_rows_nth)
    show "lbl_buf st' ! i = gather (?lnew ! i) (argsort T (?snew ! i))"
      unfolding l using i len by (simp add: gather_rows_nth)
    show "?snew ! i = scr_buf st ! i \<and> ?lnew ! i = lbl_buf st ! i"
      if "gbl ! i \<notin> set (src_ids_of b)"
      using that srow lrow by simp
    show "length (?snew ! i) = 2 * K \<and> length (?lnew ! i) = 2 * K" if tk: "topk_ok (topk T)"
    proof (cases "gbl ! i \<in> set (src_ids_of b)")
      case True
      then have "slot gbl b i < row_cnt_of gbl b" using i by (simp add: slot_less)
      then have "length (?stop ! slot gbl b i) = K" "length (?ltop ! slot gbl b i) = K"
        using tk by (simp_all only: scr_top_row lbl_top_row)
      then show ?thesis using True rows by (simp add: srow lrow)
    next
      case False
      then show ?thesis using rows by (simp add: srow lrow)
    qed
    show "length (scr_buf st') = length gbl" unfolding s using len by simp
    show "length (lbl_buf st') = length gbl" unfolding l using len by simp
    show "length (pos_cnt st') = length gbl" unfolding p using len by simp
    show "pos_cnt st' ! i = pos_cnt st ! i" if "gbl ! i \<notin> set (src_ids_of b)"
      unfolding p using that i len by (simp add: masked_upd_inactive gbl_msk_nth)
  qed
qed

lemma rank_step_inv:
  assumes ok: "rank_step T K gbl bno b st = Inr st'"
    and T: "torch_ok T" and inv: "buf_inv K (length gbl) st"
  shows "buf_inv K (length gbl) st'"
  unfolding buf_inv_def
proof (intro conjI allI impI)
  fix i assume i: "i < length gbl"
  from ok inv i obtain srow lrow where
    r: "scr_buf st' ! i = gather srow (argsort T srow)"
       "lbl_buf st' ! i = gather lrow (argsort T srow)"
       "topk_ok (topk T) \<Longrightarrow> length srow = 2 * K \<and> length lrow = 2 * K"
    by (rule rank_step_row) blast
  from T have a: "argsort_ok (argsort T)" and t: "topk_ok (topk T)"
    by (simp_all add: torch_ok_def)
  show "length (scr_buf st' ! i) = 2 * K" "length (lbl_buf st' ! i) = 2 * K"
    using r t a by (simp_all add: argsort_ok_length)
  show "desc (scr_buf st' ! i)" unfolding r(1) using a by (rule argsort_ok_desc)
next
  from inv have len: "length (scr_buf st) = length gbl" "length (lbl_buf st) = length gbl"
    "length (pos_cnt st) = length gbl"
    by (simp_all add: buf_inv_def)
  from ok show "length (scr_buf st') = length gbl"
    by (rule rank_step_rows) (simp add: len)
  from ok show "length (lbl_buf st') = length gbl"
    by (rule rank_step_rows) (simp add: len)
  from ok show "length (pos_cnt st') = length gbl"
    by (rule rank_step_rows) (simp add: len)
qed

subsection \<open>The library instances meet the contracts\<close>

lemma ins_desc_mset: "mset (ins_desc xs i js) = add_mset i (mset js)"
  by (induction js) simp_all

lemma ins_desc_set: "set (ins_desc xs i js) = insert i (set js)"
  by (metis ins_desc_mset set_mset_add_mset_insert set_mset_mset)

lemma ins_desc_sorted:
  "desc (map (\<lambda>i. xs ! i) js) \<Longrightarrow> desc (map (\<lambda>i. xs ! i) (ins_desc xs i js))"
  by (induction js) (auto simp: ins_desc_set)

lemma foldl_ins_desc:
  "desc (map (\<lambda>i. xs ! i) acc) \<Longrightarrow>
   mset (foldl (\<lambda>acc i. ins_desc xs i acc) acc ps) = mset acc + mset ps \<and>
   desc (map (\<lambda>i. xs ! i) (foldl (\<lambda>acc i. ins_desc xs i acc) acc ps))"
  by (induction ps arbitrary: acc) (simp_all add: ins_desc_mset ins_desc_sorted)

lemma argsort_stable_ok: "argsort_ok argsort_stable"
  unfolding argsort_ok_def argsort_stable_def using foldl_ins_desc [of _ "[]"] by simp

lemma pivot_order_mset:
  assumes "2 \<le> n"
  shows "mset (pivot_order n) = mset [0..<n]"
proof -
  let ?h = "n div 2"
  from assms have h: "0 < ?h" "?h < n" by simp_all
  have "[0..<n] = [0..<?h] @ [?h..<n]"
    using h by (metis le_add_diff_inverse less_imp_le_nat upt_add_eq_append zero_le)
  also have "[0..<?h] = 0 # [1..<?h]" using h by (simp add: upt_conv_Cons)
  also have "[?h..<n] = ?h # [Suc ?h..<n]" using h by (simp add: upt_conv_Cons)
  finally have "mset [0..<n] = mset (0 # [1..<?h] @ ?h # [Suc ?h..<n])" by simp
  then show ?thesis by (simp add: pivot_order_def)
qed

lemma argsort_part_ok: "argsort_ok argsort_part"
  unfolding argsort_ok_def
proof (intro allI)
  fix xs :: "score list"
  let ?ps = "if length xs \<le> 16 then [0..<length xs] else pivot_order (length xs)"
  have "mset ?ps = mset [0..<length xs]" by (simp add: pivot_order_mset)
  then show "mset (argsort_part xs) = mset [0..<length xs] \<and>
             desc (map (\<lambda>i. xs ! i) (argsort_part xs))"
    unfolding argsort_part_def using foldl_ins_desc [of xs "[]" ?ps] by simp
qed

lemma desc_rev_sort: "desc (rev (sort xs))"
  by (simp add: sorted_wrt_rev)

lemma argsort_ok_gather: "argsort_ok srt \<Longrightarrow> gather xs (srt xs) = rev (sort xs)"
  by (rule desc_unique) (simp_all add: mset_gather argsort_ok_mset argsort_ok_desc desc_rev_sort)

lemma topk_of_argsort:
  assumes "argsort_ok srt"
  shows "topk_ok (\<lambda>k xs. take k (srt xs))"
  unfolding topk_ok_def
proof (intro allI impI conjI)
  fix k and xs :: "score list" assume k: "k \<le> length xs"
  let ?p = "srt xs"
  have m: "mset ?p = mset [0..<length xs]" using assms by (rule argsort_ok_mset)
  have len: "length ?p = length xs" using assms by (rule argsort_ok_length)
  have d: "distinct ?p" using m by (metis distinct_upt mset_eq_imp_distinct_iff)
  have s: "set ?p = {..<length xs}" using m by (metis atLeast_upt mset_eq_setD)
  show "length (take k ?p) = k" using k len by simp
  show "distinct (take k ?p)" using d by simp
  show "set (take k ?p) \<subseteq> {..<length xs}" using s set_take_subset [of k ?p] by simp
  have "gather xs (take k ?p) = take k (gather xs ?p)"
    by (simp add: gather_def take_map)
  then show "mset (gather xs (take k ?p)) = mset (take k (rev (sort xs)))"
    using argsort_ok_gather [OF assms, of xs] by simp
qed

lemma torch_stable_ok: "torch_ok (torch_stable mem)"
  by (simp add: torch_ok_def torch_stable_def argsort_stable_ok topk_of_argsort)

lemma torch_part_ok: "torch_ok (torch_part mem)"
  by (simp add: torch_ok_def torch_part_def argsort_part_ok argsort_stable_ok topk_of_argsort)

subsection \<open>The loop keeps the shape\<close>

lemma desc_replicate: "desc (replicate n x)"
  by (induction n) simp_all

lemma init_state_inv: "buf_inv K N (init_state T K N)"
  by (simp add: buf_inv_def init_state_def alloc_def desc_replicate)

lemma rank_loop_inv:
  assumes "torch_ok T"
  shows "buf_inv K (length gbl) st \<Longrightarrow> rank_loop T K gbl bno bs st = Inr st' \<Longrightarrow>
         buf_inv K (length gbl) st'"
proof (induction bs arbitrary: bno st)
  case Nil
  then show ?case by simp
next
  case (Cons b bs)
  from Cons.prems(2) obtain st1 where
    s: "rank_step T K gbl bno b st = Inr st1" and l: "rank_loop T K gbl (Suc bno) bs st1 = Inr st'"
    by (auto split: sum.splits)
  from s assms Cons.prems(1) have "buf_inv K (length gbl) st1" by (rule rank_step_inv)
  then show ?case using l by (rule Cons.IH)
qed

text \<open>
  Claim C1. \<open>rank\<close> is to return a label matrix with \<open>K\<close> columns per entity, the first
  \<open>K\<close> columns of the buffer. The code returns \<open>lbl_buf\<close> itself, which has \<open>2 * K\<close>
  columns: with \<open>K = 1\<close>, one entity and one scored edge, the returned row has two
  entries, the second one being whatever the uninitialised buffer held (here 99).
\<close>

theorem rank_width_eval:
  "rank (torch_stable (\<lambda>a i j. 99)) [7]
     [\<lparr>n_id = [7], src_idx = [0], edge_label = [1], edge_score = [5]\<rparr>] 1
     = Inr ([[1, 99]], [1])"
  by code_simp

subsection \<open>Entities outside a batch\<close>

lemma perm_upt_props:
  assumes "mset p = mset [0..<n]"
  shows "length p = n" "set p = {..<n}" "distinct p"
proof -
  show "length p = n" using assms by (metis size_mset length_upt diff_zero)
  show "set p = {..<n}" using assms by (metis atLeast_upt mset_eq_setD)
  show "distinct p" using assms by (metis distinct_upt mset_eq_imp_distinct_iff)
qed

text \<open>Sorting a row that is in descending order moves a label only to a position with the
  same score.\<close>

lemma resort_sorted_row:
  assumes a: "argsort_ok srt" and d: "desc srow"
  shows "gather srow (srt srow) = srow"
    and "\<forall>j<length srow. srow ! (srt srow ! j) = srow ! j"
proof -
  show g: "gather srow (srt srow) = srow" using a d by (rule argsort_sorted_id)
  show "\<forall>j<length srow. srow ! (srt srow ! j) = srow ! j"
  proof (intro allI impI)
    fix j assume j: "j < length srow"
    then have "j < length (srt srow)" using a by (simp add: argsort_ok_length)
    then have "gather srow (srt srow) ! j = srow ! (srt srow ! j)"
      by (simp add: gather_def)
    then show "srow ! (srt srow ! j) = srow ! j" using g by simp
  qed
qed

lemma gather_id_distinct:
  assumes p: "mset p = mset [0..<length srow]" and len: "length lrow = length srow"
    and eq: "\<forall>j<length srow. srow ! (p ! j) = srow ! j" and dist: "distinct srow"
  shows "gather lrow p = lrow"
proof -
  have lp: "length p = length srow" and sp: "set p = {..<length srow}"
    using perm_upt_props [OF p] by simp_all
  have "p ! j = j" if "j < length srow" for j
  proof -
    have "p ! j \<in> set p" using that lp by simp
    then have "p ! j < length srow" using sp by simp
    moreover have "srow ! (p ! j) = srow ! j" using eq that by simp
    ultimately show ?thesis using dist that by (simp add: nth_eq_iff_index_eq)
  qed
  then show ?thesis using lp len by (simp add: gather_def list_eq_iff_nth_eq)
qed

text \<open>
  Claim C8 (amended). The code sorts every row of the buffers after each batch, with a sort
  that is not asked to be stable. For an entity outside the batch's active set, in a state
  that the loop has reached, the step leaves the positive count and the score row as they
  were; the label row is permuted at most among positions that hold the same score, and
  it is unchanged when the scores of the row are pairwise different.
\<close>

theorem rank_step_frame:
  assumes T: "torch_ok T"
    and reach: "rank_loop T K gbl 0 pre (init_state T K (length gbl)) = Inr st"
    and step: "rank_step T K gbl (length pre) b st = Inr st'"
    and i: "i < length gbl" and inact: "gbl ! i \<notin> set (src_ids_of b)"
  shows "pos_cnt st' ! i = pos_cnt st ! i \<and> scr_buf st' ! i = scr_buf st ! i \<and>
         (\<exists>p. mset p = mset [0..<2 * K] \<and> lbl_buf st' ! i = gather (lbl_buf st ! i) p \<and>
              (\<forall>j<2 * K. scr_buf st ! i ! (p ! j) = scr_buf st ! i ! j)) \<and>
         (distinct (scr_buf st ! i) \<longrightarrow> lbl_buf st' ! i = lbl_buf st ! i)"
proof -
  from T have a: "argsort_ok (argsort T)" by (simp add: torch_ok_def)
  have inv: "buf_inv K (length gbl) st"
    using T init_state_inv reach by (rule rank_loop_inv)
  then have len: "length (scr_buf st ! i) = 2 * K" "length (lbl_buf st ! i) = 2 * K"
    and d: "desc (scr_buf st ! i)"
    using i by (simp_all add: buf_inv_def)
  let ?s = "scr_buf st ! i" and ?l = "lbl_buf st ! i"
  let ?p = "argsort T ?s"
  from step inv i obtain srow lrow where
    r: "scr_buf st' ! i = gather srow (argsort T srow)"
       "lbl_buf st' ! i = gather lrow (argsort T srow)"
       "gbl ! i \<notin> set (src_ids_of b) \<Longrightarrow> srow = scr_buf st ! i \<and> lrow = lbl_buf st ! i"
       "gbl ! i \<notin> set (src_ids_of b) \<Longrightarrow> pos_cnt st' ! i = pos_cnt st ! i"
    by (rule rank_step_row) blast
  from r(3) inact have sl: "srow = ?s" "lrow = ?l" by simp_all
  have c: "pos_cnt st' ! i = pos_cnt st ! i" using r(4) inact by simp
  have s: "scr_buf st' ! i = ?s" unfolding r(1) sl using a d by (rule resort_sorted_row(1))
  have l: "lbl_buf st' ! i = gather ?l ?p" unfolding r(2) sl ..
  have pm: "mset ?p = mset [0..<2 * K]" using argsort_ok_mset [OF a, of ?s] len by simp
  have eq: "\<forall>j<2 * K. ?s ! (?p ! j) = ?s ! j"
    using resort_sorted_row(2) [OF a d] len by simp
  have "gather ?l ?p = ?l" if "distinct ?s"
    using pm len eq that by (intro gather_id_distinct [of _ ?s]) simp_all
  then show ?thesis using c s l pm eq by auto
qed

theorem rank_step_frame_witness:
  "pos_cnt \<lparr>scr_buf = [[Some 5, Some 4], [Some 3, None]], lbl_buf = [[1, 0], [1, 7]],
            pos_cnt = [1, 1]\<rparr> ! 0
     = pos_cnt \<lparr>scr_buf = [[Some 5, Some 4], [None, None]], lbl_buf = [[1, 0], [7, 7]],
            pos_cnt = [1, 0]\<rparr> ! 0
   \<and> lbl_buf \<lparr>scr_buf = [[Some 5, Some 4], [Some 3, None]], lbl_buf = [[1, 0], [1, 7]],
            pos_cnt = [1, 1]\<rparr> ! 0
     = lbl_buf \<lparr>scr_buf = [[Some 5, Some 4], [None, None]], lbl_buf = [[1, 0], [7, 7]],
            pos_cnt = [1, 0]\<rparr> ! 0"
proof -
  let ?T = "torch_stable (\<lambda>a i j. 7)"
  let ?bA = "\<lparr>n_id = [4], src_idx = [0], edge_label = [1], edge_score = [5]\<rparr>"
  let ?bB = "\<lparr>n_id = [4], src_idx = [0], edge_label = [0], edge_score = [4]\<rparr>"
  let ?bC = "\<lparr>n_id = [9], src_idx = [0], edge_label = [1], edge_score = [3]\<rparr>"
  let ?st = "\<lparr>scr_buf = [[Some 5, Some 4], [None, None]], lbl_buf = [[1, 0], [7, 7]],
            pos_cnt = [1, 0]\<rparr>"
  let ?st' = "\<lparr>scr_buf = [[Some 5, Some 4], [Some 3, None]], lbl_buf = [[1, 0], [1, 7]],
            pos_cnt = [1, 1]\<rparr>"
  have T: "torch_ok ?T" by (rule torch_stable_ok)
  have reach: "rank_loop ?T 1 [4, 9] 0 [?bA, ?bB] (init_state ?T 1 (length [4, 9::nat])) = Inr ?st"
    by code_simp
  have step: "rank_step ?T 1 [4, 9] (length [?bA, ?bB]) ?bC ?st = Inr ?st'"
    by code_simp
  have i: "0 < length [4, 9::nat]" by simp
  have inact: "[4, 9] ! 0 \<notin> set (src_ids_of ?bC)" by (simp add: src_ids_of_def)
  have d: "distinct (scr_buf ?st ! 0)" by simp
  from rank_step_frame [OF T reach step i inact] d show ?thesis by blast
qed

theorem rank_step_frame_counterexample:
  "\<exists>st'. rank_step (torch_part (\<lambda>a i j. real j)) 9 [4, 9] 0
            \<lparr>n_id = [4], src_idx = [0], edge_label = [1], edge_score = [5]\<rparr>
            (init_state (torch_part (\<lambda>a i j. real j)) 9 2) = Inr st'
     \<and> scr_buf st' ! 1 = scr_buf (init_state (torch_part (\<lambda>a i j. real j)) 9 2) ! 1
     \<and> lbl_buf (init_state (torch_part (\<lambda>a i j. real j)) 9 2) ! 1
        = [0, 1, 2, 3, 4, 5, 6, 7, 8, 9, 10, 11, 12, 13, 14, 15, 16, 17]
     \<and> lbl_buf st' ! 1 \<noteq> lbl_buf (init_state (torch_part (\<lambda>a i j. real j)) 9 2) ! 1"
proof -
  let ?T = "torch_part (\<lambda>a i j. real j)"
  define st' where "st' = \<lparr>scr_buf =
        [[Some 5, None, None, None, None, None, None, None, None, None,
          None, None, None, None, None, None, None, None],
         [None, None, None, None, None, None, None, None, None, None, None,
          None, None, None, None, None, None, None]],
        lbl_buf =
          [[1, 8, 7, 6, 5, 4, 3, 2, 1, 0, 8, 7, 6, 5, 4, 3, 2, 1],
           [9, 17, 16, 15, 14, 13, 12, 11, 10, 0, 8, 7, 6, 5, 4, 3, 2, 1 :: real]],
        pos_cnt = [1, 0]\<rparr>"
  have s: "rank_step ?T 9 [4, 9] 0
            \<lparr>n_id = [4], src_idx = [0], edge_label = [1], edge_score = [5]\<rparr>
            (init_state ?T 9 2) = Inr st'"
    unfolding st'_def by code_simp
  have a: "scr_buf st' ! 1 = scr_buf (init_state ?T 9 2) ! 1"
    unfolding st'_def by code_simp
  have b: "lbl_buf (init_state ?T 9 2) ! 1
        = [0, 1, 2, 3, 4, 5, 6, 7, 8, 9, 10, 11, 12, 13, 14, 15, 16, 17]"
    by code_simp
  have c: "lbl_buf st' ! 1 \<noteq> lbl_buf (init_state ?T 9 2) ! 1"
    unfolding b by (simp add: st'_def)
  from s a b c show ?thesis by blast
qed

text \<open>An entity that no batch of the rest of the stream mentions.\<close>

lemma rank_loop_unseen:
  assumes T: "torch_ok T" and i: "i < length gbl"
  shows "buf_inv K (length gbl) st \<Longrightarrow> rank_loop T K gbl bno bs st = Inr st' \<Longrightarrow>
         \<forall>b\<in>set bs. gbl ! i \<notin> set (src_ids_of b) \<Longrightarrow>
         scr_buf st' ! i = scr_buf st ! i \<and> mset (lbl_buf st' ! i) = mset (lbl_buf st ! i) \<and>
         pos_cnt st' ! i = pos_cnt st ! i"
proof (induction bs arbitrary: bno st)
  case Nil
  then show ?case by simp
next
  case (Cons b bs)
  from T have a: "argsort_ok (argsort T)" by (simp add: torch_ok_def)
  from Cons.prems(2) obtain st1 where
    s: "rank_step T K gbl bno b st = Inr st1" and l: "rank_loop T K gbl (Suc bno) bs st1 = Inr st'"
    by (auto split: sum.splits)
  from s T Cons.prems(1) have inv1: "buf_inv K (length gbl) st1" by (rule rank_step_inv)
  from Cons.prems(3) have inact: "gbl ! i \<notin> set (src_ids_of b)"
    and rest: "\<forall>b\<in>set bs. gbl ! i \<notin> set (src_ids_of b)" by simp_all
  from Cons.prems(1) i have len: "length (scr_buf st ! i) = 2 * K" "length (lbl_buf st ! i) = 2 * K"
    and d: "desc (scr_buf st ! i)"
    by (simp_all add: buf_inv_def)
  from s Cons.prems(1) i obtain srow lrow where
    r: "scr_buf st1 ! i = gather srow (argsort T srow)"
       "lbl_buf st1 ! i = gather lrow (argsort T srow)"
       "gbl ! i \<notin> set (src_ids_of b) \<Longrightarrow> srow = scr_buf st ! i \<and> lrow = lbl_buf st ! i"
       "gbl ! i \<notin> set (src_ids_of b) \<Longrightarrow> pos_cnt st1 ! i = pos_cnt st ! i"
    by (rule rank_step_row) blast
  from r(3) inact have sl: "srow = scr_buf st ! i" "lrow = lbl_buf st ! i" by simp_all
  have s1: "scr_buf st1 ! i = scr_buf st ! i"
    unfolding r(1) sl using a d by (rule resort_sorted_row(1))
  have "mset (argsort T (scr_buf st ! i)) = mset [0..<length (lbl_buf st ! i)]"
    using argsort_ok_mset [OF a, of "scr_buf st ! i"] len by simp
  then have l1: "mset (lbl_buf st1 ! i) = mset (lbl_buf st ! i)"
    unfolding r(2) sl by (rule mset_gather)
  have c1: "pos_cnt st1 ! i = pos_cnt st ! i" using r(4) inact by simp
  from Cons.IH [OF inv1 l rest] s1 l1 c1 show ?case by simp
qed

text \<open>
  Claim C9 (amended). For an entity of the registry that no batch mentions, the score row
  stays all \<open>-inf\<close>, the count stays 0, and the label row that \<open>rank\<close> returns is a
  rearrangement of what \<open>torch.empty\<close> left in that row: no value is filled in, so the
  labels are whatever the uninitialised memory held.
\<close>

theorem rank_unseen_entity:
  assumes T: "torch_ok T"
    and run: "rank T data_src stream K = Inr (labels, counts)"
    and i: "i < length (unique data_src)"
    and unseen: "\<forall>b\<in>set stream. unique data_src ! i \<notin> set (src_ids_of b)"
  shows "mset (labels ! i) = mset (map (empty T 0 i) [0..<2 * K]) \<and> counts ! i = 0 \<and>
         (\<exists>st. rank_loop T K (unique data_src) 0 stream
                 (init_state T K (length (unique data_src))) = Inr st \<and>
               scr_buf st ! i = replicate (2 * K) None \<and> lbl_buf st = labels)"
proof -
  let ?gbl = "unique data_src"
  let ?st0 = "init_state T K (length ?gbl)"
  from run obtain st where
    loop: "rank_loop T K ?gbl 0 stream ?st0 = Inr st"
    and res: "labels = lbl_buf st" "counts = pos_cnt st"
    by (auto simp: rank_def Let_def split: sum.splits)
  have "scr_buf st ! i = scr_buf ?st0 ! i \<and> mset (lbl_buf st ! i) = mset (lbl_buf ?st0 ! i) \<and>
        pos_cnt st ! i = pos_cnt ?st0 ! i"
    using T i init_state_inv loop unseen by (rule rank_loop_unseen)
  moreover have "scr_buf ?st0 ! i = replicate (2 * K) None" "pos_cnt ?st0 ! i = 0"
    "lbl_buf ?st0 ! i = map (empty T 0 i) [0..<2 * K]"
    using i by (simp_all add: init_state_def alloc_def)
  ultimately show ?thesis using loop res by auto
qed

theorem rank_unseen_entity_witness:
  "mset ([[1, 7], [7, 7]] ! 1) = mset (map (empty (torch_stable (\<lambda>a i j. 7)) 0 1) [0..<2 * 1])
   \<and> [1, 0 :: 32 word] ! 1 = 0"
proof -
  let ?T = "torch_stable (\<lambda>a i j. 7)"
  let ?bA = "\<lparr>n_id = [4], src_idx = [0], edge_label = [1], edge_score = [5]\<rparr>"
  have T: "torch_ok ?T" by (rule torch_stable_ok)
  have run: "rank ?T [4, 9] [?bA] 1 = Inr ([[1, 7], [7, 7]], [1, 0])" by code_simp
  have u: "unique [4, 9] = [4, 9]" by code_simp
  have i: "1 < length (unique [4, 9])" unfolding u by simp
  have unseen: "\<forall>b\<in>set [?bA]. unique [4, 9] ! 1 \<notin> set (src_ids_of b)"
    unfolding u by (simp add: src_ids_of_def)
  from rank_unseen_entity [OF T run i unseen] show ?thesis by blast
qed

theorem rank_unseen_entity_counterexample:
  "rank (torch_stable (\<lambda>a i j. 0)) [4, 9]
      [\<lparr>n_id = [4], src_idx = [0], edge_label = [1], edge_score = [5]\<rparr>] 1
     = Inr ([[1, 0], [0, 0]], [1, 0])
   \<and> rank (torch_stable (\<lambda>a i j. 1)) [4, 9]
      [\<lparr>n_id = [4], src_idx = [0], edge_label = [1], edge_score = [5]\<rparr>] 1
     = Inr ([[1, 1], [1, 1]], [1, 0])"
  by code_simp

subsection \<open>Compact batches\<close>

lemma unique_sorted: "sorted (unique xs)" "distinct (unique xs)"
  by (simp_all add: unique_def)

lemma row_cnt_active: "row_cnt_of gbl b = length (active_uids gbl b)"
  by (simp add: row_cnt_of_def gbl_msk_of_def active_uids_def filter_map comp_def)

lemma compact_batchD:
  assumes "compact_batch gbl b"
  shows "i \<in> set (src_idx b) \<longleftrightarrow> i < n_active b"
    and "n_active b \<le> length (n_id b)"
    and "sorted (take (n_active b) (n_id b))"
    and "distinct (take (n_active b) (n_id b))"
    and "set (take (n_active b) (n_id b)) \<subseteq> set gbl"
proof -
  define m where "m = n_active b"
  have mc: "m = card (set (src_idx b))"
    unfolding m_def n_active_def by (rule length_remdups_card_conv)
  from assms have 1: "\<forall>i\<in>set (src_idx b). i < m" and 2: "m \<le> length (n_id b)"
    and 4: "sorted_wrt (\<lambda>x y. x < y) (take m (n_id b))"
    and 5: "\<forall>u\<in>set (take m (n_id b)). u \<in> set gbl"
    unfolding compact_batch_def m_def by blast+
  from 1 have sub: "set (src_idx b) \<subseteq> {..<m}" by blast
  have "card (set (src_idx b)) = card {..<m}" unfolding mc [symmetric] by simp
  with sub have "set (src_idx b) = {..<m}"
    by (intro card_subset_eq) simp_all
  then have "i \<in> set (src_idx b) \<longleftrightarrow> i < m" by blast
  then show "i \<in> set (src_idx b) \<longleftrightarrow> i < n_active b" unfolding m_def .
  from 2 show "n_active b \<le> length (n_id b)" unfolding m_def .
  from 5 have "set (take m (n_id b)) \<subseteq> set gbl" by blast
  then show "set (take (n_active b) (n_id b)) \<subseteq> set gbl" unfolding m_def .
  from 4 have "sorted (take m (n_id b)) \<and> distinct (take m (n_id b))"
    unfolding strict_sorted_iff by blast
  then show "sorted (take (n_active b) (n_id b))" "distinct (take (n_active b) (n_id b))"
    unfolding m_def by blast+
qed

lemma compact_src_ids_set:
  assumes "compact_batch gbl b"
  shows "set (src_ids_of b) = set (take (n_active b) (n_id b))"
proof -
  have mem: "i \<in> set (src_idx b) \<longleftrightarrow> i < n_active b" for i
    using assms by (rule compact_batchD(1))
  have le: "n_active b \<le> length (n_id b)"
    using assms by (rule compact_batchD(2))
  have t: "set (take (n_active b) (n_id b)) = (\<lambda>i. n_id b ! i) ` {0..<n_active b}"
    by (rule nth_image [OF le, symmetric])
  have s: "set (src_idx b) = {0..<n_active b}"
  proof (rule set_eqI)
    fix x show "x \<in> set (src_idx b) \<longleftrightarrow> x \<in> {0..<n_active b}"
      unfolding mem by simp
  qed
  have "set (src_ids_of b) = (\<lambda>i. n_id b ! i) ` {0..<n_active b}"
    unfolding src_ids_of_def set_map s ..
  then show ?thesis by (simp only: t)
qed

lemma compact_unique:
  assumes "compact_batch gbl b"
  shows "unique (src_ids_of b) = take (n_active b) (n_id b)"
proof (rule sorted_distinct_set_unique)
  show "sorted (unique (src_ids_of b))" "distinct (unique (src_ids_of b))"
    by (rule unique_sorted)+
  show "sorted (take (n_active b) (n_id b))"
    using assms by (rule compact_batchD(3))
  show "distinct (take (n_active b) (n_id b))"
    using assms by (rule compact_batchD(4))
  show "set (unique (src_ids_of b)) = set (take (n_active b) (n_id b))"
    unfolding set_unique by (rule compact_src_ids_set [OF assms])
qed

lemma compact_active:
  assumes "compact_batch gbl b" "sorted gbl" "distinct gbl"
  shows "active_uids gbl b = unique (src_ids_of b)"
proof (rule sorted_distinct_set_unique)
  show "sorted (active_uids gbl b)" "distinct (active_uids gbl b)"
    using assms(2,3) by (simp_all add: active_uids_def sorted_wrt_filter)
  show "sorted (unique (src_ids_of b))" "distinct (unique (src_ids_of b))"
    by (rule unique_sorted)+
  have "set (src_ids_of b) \<subseteq> set gbl"
    unfolding compact_src_ids_set [OF assms(1)] using assms(1) by (rule compact_batchD(5))
  then show "set (active_uids gbl b) = set (unique (src_ids_of b))"
    unfolding set_unique active_uids_def by auto
qed

lemma compact_rows:
  assumes c: "compact_batch gbl b" and g: "sorted gbl" "distinct gbl"
    and j: "j < length (src_idx b)"
  shows "src_idx b ! j < row_cnt_of gbl b"
    and "src_idx b ! j < length (n_id b)"
    and "active_uids gbl b ! (src_idx b ! j) = src_ids_of b ! j"
    and "row_cnt_of gbl b = n_active b"
proof -
  note d = compact_batchD [OF c]
  have a: "active_uids gbl b = take (n_active b) (n_id b)"
    using compact_active [OF c g] compact_unique [OF c] by simp
  show r: "row_cnt_of gbl b = n_active b" using d(2) by (simp add: row_cnt_active a)
  have "src_idx b ! j \<in> set (src_idx b)" using j by simp
  then have lt: "src_idx b ! j < n_active b" unfolding d(1) .
  then show "src_idx b ! j < row_cnt_of gbl b" using r by simp
  show "src_idx b ! j < length (n_id b)" using lt d(2) by simp
  show "active_uids gbl b ! (src_idx b ! j) = src_ids_of b ! j"
    using lt j by (simp add: a src_ids_of_def)
qed

subsection \<open>The column indices\<close>







subsection \<open>Counting the positives\<close>

lemma scatter_add_length [simp]: "length (scatter_add acc is vs) = length acc"
  by (induction acc "is" vs rule: scatter_add.induct) simp_all

lemma scatter_add_nth:
  "\<forall>i\<in>set is. i < length acc \<Longrightarrow> r < length acc \<Longrightarrow>
   scatter_add acc is vs ! r = acc ! r + sum_list (map snd (filter (\<lambda>p. fst p = r) (zip is vs)))"
proof (induction acc "is" vs rule: scatter_add.induct)
  case (1 acc i "is" v vs)
  then show ?case by (cases "i = r") (simp_all add: add.assoc)
qed simp_all

lemma filter_zip_keys:
  "length xs = length ys \<Longrightarrow> \<forall>j<length xs. P (xs ! j) \<longleftrightarrow> Q (ys ! j) \<Longrightarrow>
   map snd (filter (\<lambda>p. P (fst p)) (zip xs vs)) = map snd (filter (\<lambda>p. Q (fst p)) (zip ys vs))"
proof (induction xs ys arbitrary: vs rule: list_induct2)
  case Nil
  then show ?case by simp
next
  case (Cons x xs y ys)
  have hd: "P x \<longleftrightarrow> Q y" using Cons.prems by fastforce
  have tl: "\<forall>j<length xs. P (xs ! j) \<longleftrightarrow> Q (ys ! j)" using Cons.prems by fastforce
  show ?case
  proof (cases vs)
    case Nil
    then show ?thesis by simp
  next
    case (Cons v vs')
    with hd Cons.IH [OF tl, of vs'] show ?thesis by simp
  qed
qed

lemma filter_zip_map_snd:
  "map g (map snd (filter (\<lambda>p. P (fst p)) (zip xs ys)))
   = map snd (filter (\<lambda>p. P (fst p)) (zip xs (map g ys)))"
proof (induction xs arbitrary: ys)
  case Nil
  then show ?case by simp
next
  case (Cons x xs)
  then show ?case by (cases ys) simp_all
qed

lemma filter_nth_slot:
  "i < length xs \<Longrightarrow> P (xs ! i) \<Longrightarrow> filter P xs ! length (filter P (take i xs)) = xs ! i"
proof (induction xs arbitrary: i)
  case Nil
  then show ?case by simp
next
  case (Cons x xs)
  then show ?case by (cases i) simp_all
qed

lemma slot_filter: "slot gbl b i = length (filter (\<lambda>g. g \<in> set (src_ids_of b)) (take i gbl))"
  by (simp add: slot_def gbl_msk_of_def take_map filter_map comp_def)

lemma active_slot:
  assumes "i < length gbl" "gbl ! i \<in> set (src_ids_of b)"
  shows "active_uids gbl b ! slot gbl b i = gbl ! i"
  unfolding active_uids_def slot_filter using assms by (rule filter_nth_slot)

text \<open>In a compact batch an edge goes to the row of entity \<open>gbl ! i\<close> exactly when it is an
  edge of that entity.\<close>

lemma compact_edge_row:
  assumes c: "compact_batch gbl b" and g: "sorted gbl" "distinct gbl"
    and i: "i < length gbl" "gbl ! i \<in> set (src_ids_of b)" and j: "j < length (src_idx b)"
  shows "src_idx b ! j = slot gbl b i \<longleftrightarrow> src_ids_of b ! j = gbl ! i"
proof -
  let ?u = "active_uids gbl b"
  have d: "distinct ?u" using g(2) by (simp add: active_uids_def)
  have s: "slot gbl b i < length ?u"
    using slot_less [OF i] by (simp add: row_cnt_active)
  have r: "src_idx b ! j < length ?u"
    using compact_rows(1) [OF c g j] by (simp add: row_cnt_active)
  have "src_idx b ! j = slot gbl b i \<longleftrightarrow> ?u ! (src_idx b ! j) = ?u ! slot gbl b i"
    using d s r by (simp add: nth_eq_iff_index_eq)
  then show ?thesis
    unfolding compact_rows(3) [OF c g j] active_slot [OF i] .
qed

lemma items_labels:
  assumes "length (edge_score b) = length (edge_label b)"
  shows "map snd (items_of u b)
       = map snd (filter (\<lambda>p. fst p = u) (zip (src_ids_of b) (edge_label b)))"
proof -
  have "map snd (items_of u b)
      = map snd (filter (\<lambda>p. fst p = u)
          (zip (src_ids_of b) (map snd (zip (edge_score b) (edge_label b)))))"
    unfolding items_of_def by (rule filter_zip_map_snd)
  then show ?thesis using assms by simp
qed

lemma items_inactive:
  assumes "u \<notin> set (src_ids_of b)"
  shows "items_of u b = []"
proof -
  have "filter (\<lambda>p. fst p = u) (zip (src_ids_of b) (zip (edge_score b) (edge_label b))) = []"
    using assms by (auto simp: filter_empty_conv dest: set_zip_leftD)
  then show ?thesis by (simp add: items_of_def)
qed

lemma rank_step_count:
  assumes ok: "rank_step T K gbl bno b st = Inr st'"
    and inv: "buf_inv K (length gbl) st" and wf: "wf_batch gbl b"
    and g: "sorted gbl" "distinct gbl" and i: "i < length gbl"
  shows "pos_cnt st' ! i
       = pos_cnt st ! i + sum_list (map to_int32 (map snd (items_of (gbl ! i) b)))"
proof (cases "gbl ! i \<in> set (src_ids_of b)")
  case False
  from ok inv i obtain srow lrow where
    "gbl ! i \<notin> set (src_ids_of b) \<Longrightarrow> pos_cnt st' ! i = pos_cnt st ! i"
    by (rule rank_step_row) blast
  with False show ?thesis by (simp add: items_inactive)
next
  case True
  from wf have c: "compact_batch gbl b"
    and len: "length (edge_score b) = length (edge_label b)"
    and lenl: "length (edge_label b) = length (src_idx b)"
    by (simp_all add: wf_batch_def)
  let ?X = "scatter_add (replicate (row_cnt_of gbl b) 0) (src_idx b) (map to_int32 (edge_label b))"
  from ok have p: "pos_cnt st' = masked_upd (\<lambda>c d. c + d) (gbl_msk_of gbl b) (pos_cnt st) ?X"
    by (rule rank_step_rows)
  from inv have lp: "length (pos_cnt st) = length gbl" by (simp add: buf_inv_def)
  have sl: "slot gbl b i < row_cnt_of gbl b" using i True by (rule slot_less)
  have rows: "\<forall>r\<in>set (src_idx b). r < length (replicate (row_cnt_of gbl b) (0::32 word))"
  proof
    fix r assume "r \<in> set (src_idx b)"
    then obtain j where "j < length (src_idx b)" "r = src_idx b ! j"
      by (auto simp: in_set_conv_nth)
    then show "r < length (replicate (row_cnt_of gbl b) (0::32 word))"
      using compact_rows(1) [OF c g] by simp
  qed
  have keys: "\<forall>j<length (src_idx b). (src_idx b ! j = slot gbl b i) \<longleftrightarrow> (src_ids_of b ! j = gbl ! i)"
    using compact_edge_row [OF c g i True] by blast
  have "pos_cnt st' ! i = pos_cnt st ! i + ?X ! slot gbl b i"
    unfolding p using i lp True
    by (subst masked_upd_nth) (simp_all add: row_cnt_of_def gbl_msk_nth slot_def)
  also have "?X ! slot gbl b i
      = sum_list (map snd (filter (\<lambda>p. fst p = slot gbl b i)
          (zip (src_idx b) (map to_int32 (edge_label b)))))"
    using sl by (subst scatter_add_nth [OF rows]) simp_all
  also have "map snd (filter (\<lambda>p. fst p = slot gbl b i)
          (zip (src_idx b) (map to_int32 (edge_label b))))
      = map snd (filter (\<lambda>p. fst p = gbl ! i)
          (zip (src_ids_of b) (map to_int32 (edge_label b))))"
    using keys by (intro filter_zip_keys) (simp_all add: src_ids_of_def)
  also have "\<dots> = map to_int32 (map snd (filter (\<lambda>p. fst p = gbl ! i)
          (zip (src_ids_of b) (edge_label b))))"
    by (rule filter_zip_map_snd [symmetric])
  also have "\<dots> = map to_int32 (map snd (items_of (gbl ! i) b))"
    unfolding items_labels [OF len] ..
  finally show ?thesis .
qed

lemma to_int32_binary:
  assumes "set ls \<subseteq> {0, 1}"
  shows "sum_list (map to_int32 ls) = of_nat (length (filter (\<lambda>l. l = 1) ls))"
  using assms by (induction ls) (auto simp: to_int32_def Let_def)

lemma rank_step_total:
  assumes wf: "wf_batch gbl b" and g: "sorted gbl" "distinct gbl"
  shows "\<exists>st'. rank_step T K gbl bno b st = Inr st'"
proof -
  from wf have c: "compact_batch gbl b" and ne: "src_idx b \<noteq> []"
    and ls: "length (edge_score b) = length (src_idx b)"
    and ll: "length (edge_label b) = length (src_idx b)"
    by (simp_all add: wf_batch_def)
  have 1: "\<not> (\<exists>i\<in>set (src_idx b). length (n_id b) \<le> i)"
    using compact_batchD(1,2) [OF c] by (metis leD le_trans not_le_imp_less order.strict_trans2)
  have 2: "\<not> (\<exists>i\<in>set (src_idx b). row_cnt_of gbl b \<le> i)"
  proof
    assume "\<exists>i\<in>set (src_idx b). row_cnt_of gbl b \<le> i"
    then obtain j where "j < length (src_idx b)" "row_cnt_of gbl b \<le> src_idx b ! j"
      by (auto simp: in_set_conv_nth)
    then show False using compact_rows(1) [OF c g, of j] by simp
  qed
  have 3: "expand_last (length (src_idx b)) (edge_score b) = Inr (edge_score b)"
    "expand_last (length (src_idx b)) (edge_label b) = Inr (edge_label b)"
    using ls ll by (simp_all add: expand_last_def)
  have 4: "\<not> length (edge_label b) < length (src_idx b)" using ll by simp
  show ?thesis
    unfolding rank_step_def Let_def by (simp only: 1 2 3 4 ne if_False sum.case) blast
qed

lemma pos_total_Cons:
  "pos_total u (b # bs)
   = length (filter (\<lambda>l. l = 1) (map snd (items_of u b))) + pos_total u bs"
  by (simp add: pos_total_def stream_items_def filter_map comp_def)

lemma rank_loop_count:
  assumes T: "torch_ok T" and g: "sorted gbl" "distinct gbl" and i: "i < length gbl"
  shows "buf_inv K (length gbl) st \<Longrightarrow>
         \<forall>b\<in>set bs. wf_batch gbl b \<and> set (edge_label b) \<subseteq> {0, 1} \<Longrightarrow>
         \<exists>st'. rank_loop T K gbl bno bs st = Inr st' \<and> buf_inv K (length gbl) st' \<and>
               pos_cnt st' ! i = pos_cnt st ! i + of_nat (pos_total (gbl ! i) bs)"
proof (induction bs arbitrary: bno st)
  case Nil
  then show ?case by (simp add: pos_total_def stream_items_def)
next
  case (Cons b bs)
  from Cons.prems(2) have wf: "wf_batch gbl b" and bin: "set (edge_label b) \<subseteq> {0, 1}"
    and rest: "\<forall>b\<in>set bs. wf_batch gbl b \<and> set (edge_label b) \<subseteq> {0, 1}"
    by simp_all
  from rank_step_total [OF wf g] obtain st1 where
    s: "rank_step T K gbl bno b st = Inr st1" by blast
  from s T Cons.prems(1) have inv1: "buf_inv K (length gbl) st1" by (rule rank_step_inv)
  from wf have len: "length (edge_score b) = length (edge_label b)"
    by (simp add: wf_batch_def)
  have "set (map snd (items_of (gbl ! i) b)) \<subseteq> set (edge_label b)"
    unfolding items_labels [OF len] by (auto dest: set_zip_rightD)
  with bin have b1: "set (map snd (items_of (gbl ! i) b)) \<subseteq> {0, 1}" by blast
  have c1: "pos_cnt st1 ! i = pos_cnt st ! i
      + of_nat (length (filter (\<lambda>l. l = 1) (map snd (items_of (gbl ! i) b))))"
    unfolding rank_step_count [OF s Cons.prems(1) wf g i] to_int32_binary [OF b1] ..
  from Cons.IH [OF inv1 rest, of "Suc bno"] obtain st' where
    l: "rank_loop T K gbl (Suc bno) bs st1 = Inr st'" and inv': "buf_inv K (length gbl) st'"
    and c': "pos_cnt st' ! i = pos_cnt st1 ! i + of_nat (pos_total (gbl ! i) bs)"
    by blast
  have "rank_loop T K gbl bno (b # bs) st = Inr st'" using s l by simp
  moreover have "pos_cnt st' ! i = pos_cnt st ! i + of_nat (pos_total (gbl ! i) (b # bs))"
    unfolding c' c1 pos_total_Cons by (simp add: add.assoc)
  ultimately show ?case using inv' by blast
qed

text \<open>
  Claim C4 (amended). When every batch of the stream has the compact numbering (in
  whatever order its edges come), carries one score and one label per edge and at least
  one edge, and the labels are 0 or 1, \<open>rank\<close> returns, and the count it returns for an
  entity is the number of that entity's items with label 1 over the whole stream, whether
  or not they stay in the buffer: as a 32-bit integer always, and as a number when it is
  below \<open>2^31\<close>. On a batch that is not numbered in this way the counts go to other
  entities' rows.
\<close>

theorem rank_pos_counts:
  assumes T: "torch_ok T"
    and wf: "\<forall>b\<in>set stream. wf_batch (unique data_src) b \<and> set (edge_label b) \<subseteq> {0, 1}"
    and i: "i < length (unique data_src)"
  shows "\<exists>labels counts. rank T data_src stream K = Inr (labels, counts) \<and>
           counts ! i = of_nat (pos_total (unique data_src ! i) stream) \<and>
           (pos_total (unique data_src ! i) stream < 2 ^ 31 \<longrightarrow>
              sint (counts ! i) = int (pos_total (unique data_src ! i) stream))"
proof -
  let ?gbl = "unique data_src"
  let ?n = "pos_total (?gbl ! i) stream"
  from rank_loop_count [OF T unique_sorted i init_state_inv wf, of K 0] obtain st where
    l: "rank_loop T K ?gbl 0 stream (init_state T K (length ?gbl)) = Inr st"
    and c: "pos_cnt st ! i = pos_cnt (init_state T K (length ?gbl)) ! i + of_nat ?n"
    by blast
  have "pos_cnt (init_state T K (length ?gbl)) ! i = 0"
    using i by (simp add: init_state_def)
  with c have c0: "pos_cnt st ! i = of_nat ?n" by simp
  have r: "rank T data_src stream K = Inr (lbl_buf st, pos_cnt st)"
    by (simp add: rank_def l)
  have "sint (of_nat ?n :: 32 word) = int ?n" if "?n < 2 ^ 31"
  proof -
    have "int ?n < 2 ^ 31" using that by (metis of_nat_less_iff of_nat_numeral of_nat_power)
    moreover have "- (2 ^ 31) \<le> int ?n" by simp
    ultimately have "signed_take_bit 31 (int ?n) = int ?n"
      by (rule signed_take_bit_int_eq_self [rotated])
    moreover have "sint (of_nat ?n :: 32 word) = signed_take_bit 31 (int ?n)"
      using sint_sbintrunc' [of "int ?n", where 'a = 32] by simp
    ultimately show ?thesis by simp
  qed
  with r c0 show ?thesis by auto
qed

theorem rank_pos_counts_witness:
  "\<exists>labels counts.
     rank (torch_stable (\<lambda>a i j. 0)) [4, 9]
       [\<lparr>n_id = [4], src_idx = [0, 0], edge_label = [1, 1], edge_score = [5, 4]\<rparr>,
        \<lparr>n_id = [4, 9], src_idx = [0, 1, 0], edge_label = [1, 0, 1], edge_score = [3, 2, 1]\<rparr>] 1
       = Inr (labels, counts)
     \<and> counts ! 0 = 4 \<and> sint (counts ! 0) = 4"
proof -
  let ?T = "torch_stable (\<lambda>a i j. 0)"
  let ?b1 = "\<lparr>n_id = [4], src_idx = [0, 0], edge_label = [1, 1], edge_score = [5, 4]\<rparr>"
  let ?b2 = "\<lparr>n_id = [4, 9], src_idx = [0, 1, 0], edge_label = [1, 0, 1], edge_score = [3, 2, 1]\<rparr>"
  have T: "torch_ok ?T" by (rule torch_stable_ok)
  have u: "unique [4, 9] = [4, 9]" by (simp add: unique_def)
  have wf: "\<forall>b\<in>set [?b1, ?b2]. wf_batch (unique [4, 9]) b \<and> set (edge_label b) \<subseteq> {0, 1}"
    unfolding u by (simp add: wf_batch_def compact_batch_def n_active_def)
  have i: "0 < length (unique [4, 9])" unfolding u by simp
  have pt: "pos_total (unique [4, 9] ! 0) [?b1, ?b2] = 4"
    unfolding u by (simp add: pos_total_def stream_items_def items_of_def src_ids_of_def)
  from rank_pos_counts [OF T wf i, of 1] show ?thesis
    unfolding pt by simp
qed

theorem rank_pos_counts_counterexample:
  "rank (torch_stable (\<lambda>a i j. 0)) [4, 9]
     [\<lparr>n_id = [9, 4], src_idx = [0, 1], edge_label = [1, 0], edge_score = [5, 3]\<rparr>] 1
     = Inr ([[1, 0], [0, 0]], [1, 0])
   \<and> pos_total 4 [\<lparr>n_id = [9, 4], src_idx = [0, 1], edge_label = [1, 0], edge_score = [5, 3]\<rparr>] = 0
   \<and> pos_total 9 [\<lparr>n_id = [9, 4], src_idx = [0, 1], edge_label = [1, 0], edge_score = [5, 3]\<rparr>] = 1"
proof -
  have "rank (torch_stable (\<lambda>a i j. 0)) [4, 9]
     [\<lparr>n_id = [9, 4], src_idx = [0, 1], edge_label = [1, 0], edge_score = [5, 3]\<rparr>] 1
     = Inr ([[1, 0], [0, 0]], [1, 0])"
    by code_simp
  moreover have
    "pos_total 4 [\<lparr>n_id = [9, 4], src_idx = [0, 1], edge_label = [1, 0], edge_score = [5, 3]\<rparr>] = 0"
    "pos_total 9 [\<lparr>n_id = [9, 4], src_idx = [0, 1], edge_label = [1, 0], edge_score = [5, 3]\<rparr>] = 1"
    by (simp_all add: pos_total_def stream_items_def items_of_def src_ids_of_def)
  ultimately show ?thesis by blast
qed

section \<open>The top of the stream\<close>

subsection \<open>The best items of a list\<close>

lemma take_insort_key:
  "take K (insort_key f x (take K S)) = take K (insort_key f x S)"
proof (induction S arbitrary: K)
  case Nil
  then show ?case by simp
next
  case (Cons y ys)
  show ?case
  proof (cases K)
    case 0
    then show ?thesis by simp
  next
    case (Suc k)
    with Cons.IH [of k] show ?thesis by (cases k) simp_all
  qed
qed

lemma take_foldr_insort:
  "take K (foldr (insort_key f) A (take K S)) = take K (foldr (insort_key f) A S)"
proof (induction A)
  case Nil
  then show ?case by simp
next
  case (Cons a A)
  have "take K (foldr (insort_key f) (a # A) (take K S))
      = take K (insort_key f a (take K (foldr (insort_key f) A (take K S))))"
    by (simp add: take_insort_key)
  also have "\<dots> = take K (insort_key f a (take K (foldr (insort_key f) A S)))"
    by (simp only: Cons.IH)
  also have "\<dots> = take K (foldr (insort_key f) (a # A) S)"
    by (simp add: take_insort_key)
  finally show ?case .
qed

lemma take_sort_append:
  "take K (sort_key f (A @ take K (sort_key f B))) = take K (sort_key f (A @ B))"
proof -
  have s: "sort_key f (take K (sort_key f B)) = take K (sort_key f B)"
    by (rule sort_key_id_if_sorted) (simp add: take_map [symmetric] sorted_wrt_take)
  have "sort_key f (A @ take K (sort_key f B))
      = foldr (insort_key f) A (sort_key f (take K (sort_key f B)))"
    by (simp add: sort_key_def)
  then have "take K (sort_key f (A @ take K (sort_key f B)))
      = take K (foldr (insort_key f) A (take K (sort_key f B)))"
    by (simp only: s)
  also have "\<dots> = take K (foldr (insort_key f) A (sort_key f B))"
    by (rule take_foldr_insort)
  also have "\<dots> = take K (sort_key f (A @ B))"
    by (simp add: sort_key_def)
  finally show ?thesis .
qed

subsection \<open>The entries of a row that are not padding\<close>

lemma fin_append: "fin (xs @ ys) = fin xs @ fin ys"
  by (induction xs rule: fin.induct) simp_all

lemma mset_fin:
  "mset (fin xs) = image_mset (\<lambda>p. (the (fst p), snd p)) (filter_mset (\<lambda>p. fst p \<noteq> None) (mset xs))"
  by (induction xs rule: fin.induct) simp_all

lemma mset_fin_cong: "mset xs = mset ys \<Longrightarrow> mset (fin xs) = mset (fin ys)"
  by (simp add: mset_fin)

lemma fin_all_None: "\<forall>p\<in>set xs. fst p = None \<Longrightarrow> fin xs = []"
  by (induction xs rule: fin.induct) simp_all

lemma desc_None_tail:
  assumes "desc (map fst ((None, l) # r))"
  shows "\<forall>p\<in>set r. fst p = None"
proof
  fix p assume "p \<in> set r"
  with assms have "fst p \<le> None" by auto
  then show "fst p = None" by (cases "fst p") simp_all
qed

lemma fin_nth:
  "desc (map fst Z) \<Longrightarrow> j < length (fin Z) \<Longrightarrow> Z ! j = (Some (fst (fin Z ! j)), snd (fin Z ! j))"
proof (induction Z arbitrary: j rule: fin.induct)
  case 1
  then show ?case by simp
next
  case (2 l r)
  have "\<forall>p\<in>set r. fst p = None" using "2.prems"(1) by (rule desc_None_tail)
  then have "fin r = []" by (rule fin_all_None)
  with "2.prems"(2) show ?case by simp
next
  case (3 s l r)
  then show ?case by (cases j) simp_all
qed

subsection \<open>The selection of the top entries of a row\<close>

lemma fins_fin: "map fst (fin Z) = fins (map fst Z)"
  by (induction Z rule: fin.induct) simp_all

lemma mset_fins:
  "mset (fins xs) = image_mset the (filter_mset (\<lambda>x. x \<noteq> None) (mset xs))"
  by (induction xs rule: fins.induct) simp_all

lemma mset_fins_cong: "mset xs = mset ys \<Longrightarrow> mset (fins xs) = mset (fins ys)"
  by (simp add: mset_fins)

lemma fins_length_le: "length (fins xs) \<le> length xs"
  by (induction xs rule: fins.induct) simp_all

lemma fins_Some: "fins (map Some D) = D"
  by (induction D) simp_all

lemma fins_None: "fins (replicate q None) = []"
  by (induction q) simp_all

lemma fins_append: "fins (xs @ ys) = fins xs @ fins ys"
  by (induction xs rule: fins.induct) simp_all

lemma mset_split_fins:
  "mset (map Some (fins xs)) + mset (replicate (length xs - length (fins xs)) None) = mset xs"
proof (induction xs rule: fins.induct)
  case 1
  then show ?case by simp
next
  case (2 r)
  have "Suc (length r) - length (fins r) = Suc (length r - length (fins r))"
    using fins_length_le [of r] by simp
  with 2 show ?case by simp
next
  case (3 s r)
  then show ?case by simp
qed

lemma desc_Some_None:
  assumes "sorted_wrt (\<lambda>a b. b \<le> a) (D :: real list)"
  shows "desc (map Some D @ replicate q None)"
proof -
  have "desc (map Some D)"
    using assms by (simp add: sorted_wrt_map)
  moreover have "desc (replicate q (None :: score))"
    by (induction q) simp_all
  ultimately show ?thesis by (auto simp: sorted_wrt_append)
qed

lemma rev_sort_option:
  "rev (sort xs) = map Some (rev (sort (fins xs))) @ replicate (length xs - length (fins xs)) None"
proof (rule desc_unique)
  show "desc (rev (sort xs))" by (simp add: sorted_wrt_rev)
  have "sorted_wrt (\<lambda>a b. b \<le> a) (rev (sort (fins xs)))" by (simp add: sorted_wrt_rev)
  then show "desc (map Some (rev (sort (fins xs))) @ replicate (length xs - length (fins xs)) None)"
    by (rule desc_Some_None)
  show "mset (rev (sort xs)) =
        mset (map Some (rev (sort (fins xs))) @ replicate (length xs - length (fins xs)) None)"
    using mset_split_fins [of xs] by simp
qed

lemma fins_take_rev_sort: "fins (take K (rev (sort xs))) = take K (rev (sort (fins xs)))"
proof -
  have "fins (take K (rev (sort xs)))
      = fins (take K (map Some (rev (sort (fins xs)))))
        @ fins (take (K - length (fins xs)) (replicate (length xs - length (fins xs)) None))"
    unfolding rev_sort_option [of xs] by (simp add: fins_append)
  also have "take K (map Some (rev (sort (fins xs)))) = map Some (take K (rev (sort (fins xs))))"
    by (simp add: take_map)
  also have "take (K - length (fins xs)) (replicate (length xs - length (fins xs)) (None :: score))
      = replicate (min (K - length (fins xs)) (length xs - length (fins xs))) None"
    by simp
  finally show ?thesis by (simp only: fins_Some fins_None append_Nil2)
qed

lemma map_fst_sort_desc:
  "map fst (sort_key (\<lambda>p. - fst p) (L :: (real \<times> real) list)) = rev (sort (map fst L))"
proof -
  let ?D = "map fst (sort_key (\<lambda>p. - fst p) L)"
  have "sorted (map (\<lambda>p. - fst p) (sort_key (\<lambda>p. - fst p) L))" by (rule sorted_sort_key)
  then have "sorted_wrt (\<lambda>a b. b \<le> a) ?D"
    by (simp add: sorted_wrt_map)
  then have "sorted (rev ?D)" by (simp add: sorted_wrt_rev)
  moreover have "mset (rev ?D) = mset (map fst L)" by simp
  ultimately have "sort (map fst L) = rev ?D" by (intro properties_for_sort)
  then show ?thesis by simp
qed

lemma zip_gather:
  assumes "length xs = length ls" "set I \<subseteq> {..<length xs}"
  shows "zip (gather xs I) (gather ls I) = gather (zip xs ls) I"
proof -
  have "zip (map (\<lambda>i. xs ! i) I) (map (\<lambda>i. ls ! i) I) = map (\<lambda>i. (xs ! i, ls ! i)) I"
    by (induction I) simp_all
  also have "\<dots> = map (\<lambda>i. zip xs ls ! i) I"
  proof (rule map_cong [OF refl])
    fix i assume "i \<in> set I"
    with assms have "i < length xs" "i < length ls" by auto
    then show "(xs ! i, ls ! i) = zip xs ls ! i" by simp
  qed
  finally show ?thesis by (simp only: gather_def)
qed

subsection \<open>Edges side by side\<close>

lemma sorted_split:
  "sorted (map f ps) \<Longrightarrow>
   ps = filter (\<lambda>p. f p < (m::nat)) ps @ filter (\<lambda>p. \<not> f p < m) ps"
proof (induction ps)
  case Nil
  then show ?case by simp
next
  case (Cons p ps)
  show ?case
  proof (cases "f p < m")
    case True
    with Cons show ?thesis by simp
  next
    case False
    have "\<forall>q\<in>set ps. \<not> f q < m"
    proof
      fix q assume "q \<in> set ps"
      with Cons.prems have "f p \<le> f q" by simp
      with False show "\<not> f q < m" by simp
    qed
    then have "filter (\<lambda>p. f p < m) ps = []" "filter (\<lambda>p. \<not> f p < m) ps = ps"
      by (simp_all add: filter_empty_conv filter_id_conv)
    with False show ?thesis by simp
  qed
qed

lemma sorted_groups:
  "sorted (map f ps) \<Longrightarrow> \<forall>p\<in>set ps. f p < m \<Longrightarrow>
   ps = concat (map (\<lambda>k. filter (\<lambda>p. f p = k) ps) [0..<m])"
proof (induction m arbitrary: ps)
  case 0
  from "0.prems"(2) have "ps = []" by (cases ps) auto
  then show ?case by simp
next
  case (Suc m)
  let ?lo = "filter (\<lambda>p. f p < m) ps" and ?hi = "filter (\<lambda>p. \<not> f p < m) ps"
  have split: "ps = ?lo @ ?hi" using Suc.prems(1) by (rule sorted_split)
  have hi: "?hi = filter (\<lambda>p. f p = m) ps"
  proof (rule filter_cong [OF refl])
    fix p assume "p \<in> set ps"
    with Suc.prems(2) have "f p < Suc m" by simp
    then show "(\<not> f p < m) = (f p = m)" by auto
  qed
  have "sorted (map f ?lo)" using Suc.prems(1) by (rule sorted_filter)
  moreover have "\<forall>p\<in>set ?lo. f p < m" by simp
  ultimately have lo: "?lo = concat (map (\<lambda>k. filter (\<lambda>p. f p = k) ?lo) [0..<m])"
    by (rule Suc.IH)
  have eq: "map (\<lambda>k. filter (\<lambda>p. f p = k) ?lo) [0..<m] = map (\<lambda>k. filter (\<lambda>p. f p = k) ps) [0..<m]"
  proof (rule map_cong [OF refl])
    fix k assume "k \<in> set [0..<m]"
    then have "k < m" by simp
    then have "(\<lambda>p. f p < m \<and> f p = k) = (\<lambda>p. f p = k)" by auto
    then show "filter (\<lambda>p. f p = k) ?lo = filter (\<lambda>p. f p = k) ps"
      by (simp add: conj_commute)
  qed
  have lo': "?lo = concat (map (\<lambda>k. filter (\<lambda>p. f p = k) ps) [0..<m])"
    using lo unfolding eq .
  have "concat (map (\<lambda>k. filter (\<lambda>p. f p = k) ps) [0..<Suc m])
      = concat (map (\<lambda>k. filter (\<lambda>p. f p = k) ps) [0..<m]) @ filter (\<lambda>p. f p = m) ps"
    by simp
  also have "\<dots> = ?lo @ ?hi" unfolding hi lo' [symmetric] ..
  also have "\<dots> = ps" using split by (rule sym)
  finally show ?case by (rule sym)
qed

lemma filter_eq_replicate: "filter (\<lambda>x. x = k) xs = replicate (count_list xs k) k"
  by (induction xs) simp_all

lemma sorted_replicates:
  assumes "sorted xs" "\<forall>x\<in>set xs. x < m"
  shows "xs = concat (map (\<lambda>k. replicate (count_list xs k) k) [0..<m])"
proof -
  have "sorted (map (\<lambda>x. x) xs)" using assms(1) by simp
  then have "xs = concat (map (\<lambda>k. filter (\<lambda>x. x = k) xs) [0..<m])"
    using assms(2) by (rule sorted_groups)
  then show ?thesis by (simp only: filter_eq_replicate)
qed

lemma group_length: "length xs = length vs \<Longrightarrow> length (group xs vs k) = count_list xs k"
  unfolding group_def by (induction xs vs rule: list_induct2) simp_all

lemma sorted_value_groups:
  assumes "sorted xs" "\<forall>x\<in>set xs. x < m" "length vs = length xs"
  shows "vs = concat (map (group xs vs) [0..<m])"
proof -
  have mf: "map fst (zip xs vs) = xs" and ms: "map snd (zip xs vs) = vs"
    using assms(3) by simp_all
  have "sorted (map fst (zip xs vs))" unfolding mf by (rule assms(1))
  moreover have "\<forall>p\<in>set (zip xs vs). fst p < m"
    using assms(2) by (auto dest: set_zip_leftD)
  ultimately have "zip xs vs = concat (map (\<lambda>k. filter (\<lambda>p. fst p = k) (zip xs vs)) [0..<m])"
    by (rule sorted_groups)
  then have "map snd (zip xs vs)
      = map snd (concat (map (\<lambda>k. filter (\<lambda>p. fst p = k) (zip xs vs)) [0..<m]))"
    by simp
  moreover have "group xs vs = (\<lambda>k. map snd (filter (\<lambda>p. fst p = k) (zip xs vs)))"
    by (rule ext) (simp add: group_def)
  ultimately show ?thesis
    unfolding ms by (simp add: map_concat comp_def)
qed

lemma zip_concat_map:
  "\<forall>k\<in>set ks. length (f k) = length (g k) \<Longrightarrow>
   zip (concat (map f ks)) (concat (map g ks)) = concat (map (\<lambda>k. zip (f k) (g k)) ks)"
  by (induction ks) simp_all

lemma sorted_cells:
  assumes "sorted xs" "\<forall>x\<in>set xs. x < m"
  shows "zip xs (concat (map (\<lambda>k. [0..<count_list xs k]) [0..<m]))
       = concat (map (\<lambda>k. map (Pair k) [0..<count_list xs k]) [0..<m])"
proof -
  have "zip (concat (map (\<lambda>k. replicate (count_list xs k) k) [0..<m]))
            (concat (map (\<lambda>k. [0..<count_list xs k]) [0..<m]))
      = concat (map (\<lambda>k. zip (replicate (count_list xs k) k) [0..<count_list xs k]) [0..<m])"
    by (rule zip_concat_map) simp
  also have "\<dots> = concat (map (\<lambda>k. map (Pair k) [0..<count_list xs k]) [0..<m])"
    by (simp add: zip_replicate1)
  finally show ?thesis
    using sorted_replicates [OF assms] by simp
qed

subsection \<open>Writing the groups into a matrix\<close>

lemma index_put_append:
  "length ps = length vs \<Longrightarrow>
   index_put m (ps @ ps') (vs @ vs') = index_put (index_put m ps vs) ps' vs'"
proof (induction ps vs arbitrary: m rule: list_induct2)
  case Nil
  then show ?case by simp
next
  case (Cons p ps v vs)
  then show ?case by (cases p) simp
qed

lemma index_put_segment:
  "k < length m \<Longrightarrow> off + length vs \<le> length (m ! k) \<Longrightarrow>
   index_put m (map (Pair k) [off..<off + length vs]) vs
   = m[k := take off (m ! k) @ vs @ drop (off + length vs) (m ! k)]"
proof (induction vs arbitrary: m off)
  case Nil
  then show ?case by simp
next
  case (Cons v vs)
  let ?row = "m ! k"
  let ?m1 = "m[k := ?row[off := v]]"
  have u: "[off..<off + length (v # vs)] = off # [Suc off..<Suc off + length vs]"
    by (simp add: upt_rec)
  have k1: "k < length ?m1" using Cons.prems(1) by simp
  have r1: "?m1 ! k = ?row[off := v]" using Cons.prems(1) by simp
  have b1: "Suc off + length vs \<le> length (?m1 ! k)" using Cons.prems(2) r1 by simp
  have o: "off < length ?row" using Cons.prems(2) by simp
  have t: "take (Suc off) (?row[off := v]) = take off ?row @ [v]"
    using o by (simp add: take_Suc_conv_app_nth)
  have d: "drop (Suc off + length vs) (?row[off := v]) = drop (off + length (v # vs)) ?row"
    by simp
  have "index_put m (map (Pair k) [off..<off + length (v # vs)]) (v # vs)
      = index_put ?m1 (map (Pair k) [Suc off..<Suc off + length vs]) vs"
    unfolding u by simp
  also have "\<dots> = ?m1[k := take (Suc off) (?m1 ! k) @ vs @ drop (Suc off + length vs) (?m1 ! k)]"
    using k1 b1 by (rule Cons.IH)
  also have "\<dots> = m[k := take off ?row @ (v # vs) @ drop (off + length (v # vs)) ?row]"
    unfolding r1 t d by simp
  finally show ?case .
qed

lemma index_put_row:
  assumes "k < length m" "length vs \<le> length (m ! k)"
  shows "index_put m (map (Pair k) [0..<length vs]) vs = m[k := vs @ drop (length vs) (m ! k)]"
  using index_put_segment [of k m 0 vs] assms by simp

lemma index_put_groups:
  "distinct ks \<Longrightarrow> \<forall>k\<in>set ks. k < length m \<and> length (g k) \<le> length (m ! k) \<Longrightarrow>
   r < length m \<Longrightarrow>
   index_put m (concat (map (\<lambda>k. map (Pair k) [0..<length (g k)]) ks)) (concat (map g ks)) ! r
   = (if r \<in> set ks then g r @ drop (length (g r)) (m ! r) else m ! r)"
proof (induction ks arbitrary: m)
  case Nil
  then show ?case by simp
next
  case (Cons k ks)
  let ?m1 = "m[k := g k @ drop (length (g k)) (m ! k)]"
  from Cons.prems have k: "k < length m" "length (g k) \<le> length (m ! k)"
    and kn: "k \<notin> set ks" and d: "distinct ks" by simp_all
  have rest: "\<forall>j\<in>set ks. j < length ?m1 \<and> length (g j) \<le> length (?m1 ! j)"
  proof
    fix j assume j: "j \<in> set ks"
    with kn have "j \<noteq> k" by blast
    with Cons.prems(2) j show "j < length ?m1 \<and> length (g j) \<le> length (?m1 ! j)" by simp
  qed
  have r1: "r < length ?m1" using Cons.prems(3) by simp
  have "index_put m (concat (map (\<lambda>k. map (Pair k) [0..<length (g k)]) (k # ks)))
          (concat (map g (k # ks)))
      = index_put (index_put m (map (Pair k) [0..<length (g k)]) (g k))
          (concat (map (\<lambda>k. map (Pair k) [0..<length (g k)]) ks)) (concat (map g ks))"
    by (simp add: index_put_append)
  also have "index_put m (map (Pair k) [0..<length (g k)]) (g k) = ?m1"
    using k by (rule index_put_row)
  finally have "index_put m (concat (map (\<lambda>k. map (Pair k) [0..<length (g k)]) (k # ks)))
          (concat (map g (k # ks))) ! r
      = (if r \<in> set ks then g r @ drop (length (g r)) (?m1 ! r) else ?m1 ! r)"
    using Cons.IH [OF d rest r1] by simp
  also have "\<dots> = (if r \<in> set (k # ks) then g r @ drop (length (g r)) (m ! r) else m ! r)"
  proof (cases "r = k")
    case True
    with kn k show ?thesis by simp
  next
    case False
    then show ?thesis by simp
  qed
  finally show ?case .
qed

text \<open>The edges are sorted by source index: row \<open>r\<close> of the matrix receives the values of
  the edges with source index \<open>r\<close>, in their order, from column 0 on.\<close>

lemma index_put_sorted:
  assumes s: "sorted xs" "\<forall>x\<in>set xs. x < m" and len: "length vs = length xs"
    and M: "m \<le> length M" "\<forall>k<m. count_list xs k \<le> length (M ! k)" and r: "r < m"
  shows "index_put M (zip xs (concat (map (\<lambda>k. [0..<count_list xs k]) [0..<m]))) vs ! r
       = group xs vs r @ drop (count_list xs r) (M ! r)"
proof -
  have gl: "length (group xs vs k) = count_list xs k" for k
    using len [symmetric] by (rule group_length)
  have cells: "zip xs (concat (map (\<lambda>k. [0..<count_list xs k]) [0..<m]))
      = concat (map (\<lambda>k. map (Pair k) [0..<length (group xs vs k)]) [0..<m])"
    unfolding gl using s by (rule sorted_cells)
  have vals: "vs = concat (map (group xs vs) [0..<m])"
    using s len by (rule sorted_value_groups)
  have hyp: "\<forall>k\<in>set [0..<m]. k < length M \<and> length (group xs vs k) \<le> length (M ! k)"
    unfolding gl using M by simp
  have "index_put M (concat (map (\<lambda>k. map (Pair k) [0..<length (group xs vs k)]) [0..<m]))
          (concat (map (group xs vs) [0..<m])) ! r
      = (if r \<in> set [0..<m] then group xs vs r @ drop (length (group xs vs r)) (M ! r) else M ! r)"
    using distinct_upt hyp by (rule index_put_groups) (use r M(1) in simp)
  then show ?thesis
    unfolding cells vals [symmetric] gl using r by simp
qed

subsection \<open>The temporary matrices of a compact batch\<close>

lemma count_list_map_inj:
  "inj_on g (insert k (set xs)) \<Longrightarrow> count_list (map g xs) (g k) = count_list xs k"
proof (induction xs)
  case Nil
  then show ?case by simp
next
  case (Cons x xs)
  from Cons.prems have "inj_on g (insert k (set xs))"
    by (rule inj_on_subset) auto
  then have IH: "count_list (map g xs) (g k) = count_list xs k" by (rule Cons.IH)
  from Cons.prems have "g x = g k \<longleftrightarrow> x = k"
    by (auto simp: inj_on_def)
  with IH show ?case by simp
qed

lemma take_as_map: "m \<le> length xs \<Longrightarrow> take m xs = map (\<lambda>k. xs ! k) [0..<m]"
  by (simp add: list_eq_iff_nth_eq)

lemma compact_row_cnt:
  assumes c: "compact_batch gbl b" and g: "sorted gbl" "distinct gbl"
  shows "row_cnt_of gbl b = n_active b"
proof -
  have "active_uids gbl b = take (n_active b) (n_id b)"
    using compact_active [OF c g] compact_unique [OF c] by simp
  then show ?thesis
    using compact_batchD(2) [OF c] by (simp add: row_cnt_active)
qed

lemma compact_counts:
  assumes c: "compact_batch gbl b"
  shows "unique_counts (src_ids_of b) = map (count_list (src_idx b)) [0..<n_active b]"
proof -
  let ?m = "n_active b"
  have le: "?m \<le> length (n_id b)" using c by (rule compact_batchD(2))
  have d: "distinct (take ?m (n_id b))" using c by (rule compact_batchD(4))
  have inj: "inj_on (\<lambda>i. n_id b ! i) {..<?m}"
  proof (rule inj_onI)
    fix x y assume xy: "x \<in> {..<?m}" "y \<in> {..<?m}" "n_id b ! x = n_id b ! y"
    then have e: "take ?m (n_id b) ! x = take ?m (n_id b) ! y" by simp
    have lx: "x < length (take ?m (n_id b))" and ly: "y < length (take ?m (n_id b))"
      using xy(1,2) le by simp_all
    from nth_eq_iff_index_eq [OF d lx ly] e show "x = y" by blast
  qed
  have cnt: "count_list (src_ids_of b) (n_id b ! k) = count_list (src_idx b) k" if "k < ?m" for k
  proof -
    have "insert k (set (src_idx b)) \<subseteq> {..<?m}"
      using that compact_batchD(1) [OF c] by auto
    with inj have "inj_on (\<lambda>i. n_id b ! i) (insert k (set (src_idx b)))"
      by (rule inj_on_subset)
    then show ?thesis unfolding src_ids_of_def by (rule count_list_map_inj)
  qed
  have "unique_counts (src_ids_of b) = map (count_list (src_ids_of b)) (take ?m (n_id b))"
    unfolding unique_counts_def compact_unique [OF c] ..
  also have "\<dots> = map (\<lambda>k. count_list (src_ids_of b) (n_id b ! k)) [0..<?m]"
    unfolding take_as_map [OF le] by (simp add: comp_def)
  also have "\<dots> = map (count_list (src_idx b)) [0..<?m]"
    by (rule map_cong [OF refl]) (simp add: cnt)
  finally show ?thesis .
qed

lemma compact_col_idx:
  assumes "compact_batch gbl b"
  shows "col_idx_of b = concat (map (\<lambda>k. [0..<count_list (src_idx b) k]) [0..<n_active b])"
  unfolding col_idx_of_def compact_counts [OF assms] by (simp add: comp_def)

lemma compact_count_le:
  assumes c: "compact_batch gbl b" and k: "k < n_active b"
  shows "count_list (src_idx b) k \<le> col_cnt_of K b"
proof -
  have "count_list (src_idx b) k \<in> set (unique_counts (src_ids_of b))"
    unfolding compact_counts [OF c] using k by simp
  then have "count_list (src_idx b) k \<le> Max (set (unique_counts (src_ids_of b)))"
    by simp
  then show ?thesis by (simp add: col_cnt_of_def)
qed

lemma group_map: "group xs (map f vs) k = map f (group xs vs k)"
  unfolding group_def by (rule filter_zip_map_snd [symmetric])

lemma group_zip: "zip (group xs ss k) (group xs ls k) = group xs (zip ss ls) k"
  unfolding group_def
proof (induction xs arbitrary: ss ls)
  case Nil
  then show ?case by simp
next
  case (Cons x xs)
  show ?case
  proof (cases ss)
    case Nil
    then show ?thesis by simp
  next
    case ss: (Cons s ss')
    show ?thesis
    proof (cases ls)
      case Nil
      then show ?thesis by simp
    next
      case (Cons l ls')
      with ss Cons.IH [of ss' ls'] show ?thesis by simp
    qed
  qed
qed

lemma fin_zip_Some: "length ss = length ls \<Longrightarrow> fin (zip (map Some ss) ls) = zip ss ls"
  by (induction ss ls rule: list_induct2) simp_all

lemma fin_zip_None: "fin (zip (replicate n None) ls) = []"
  by (rule fin_all_None) (auto dest: set_zip_leftD)

lemma scr_tmp_row:
  assumes c: "compact_batch gbl b" and s: "sorted (src_idx b)" and g: "sorted gbl" "distinct gbl"
    and len: "length vals = length (src_idx b)" and r: "r < n_active b"
  shows "scr_tmp_of K gbl b vals ! r
       = map Some (group (src_idx b) vals r)
         @ replicate (col_cnt_of K b - count_list (src_idx b) r) None"
proof -
  let ?M = "replicate (row_cnt_of gbl b) (replicate (col_cnt_of K b) (None :: score))"
  have rc: "row_cnt_of gbl b = n_active b" using c g by (rule compact_row_cnt)
  have lt: "\<forall>x\<in>set (src_idx b). x < n_active b"
    using compact_batchD(1) [OF c] by blast
  have l: "length (map Some vals) = length (src_idx b)" using len by simp
  have M1: "n_active b \<le> length ?M" by (simp add: rc)
  have M2: "\<forall>k<n_active b. count_list (src_idx b) k \<le> length (?M ! k)"
    using compact_count_le [OF c] by (simp add: rc)
  have "scr_tmp_of K gbl b vals ! r
      = group (src_idx b) (map Some vals) r @ drop (count_list (src_idx b) r) (?M ! r)"
    unfolding scr_tmp_of_def compact_col_idx [OF c]
    using s lt l M1 M2 r by (rule index_put_sorted)
  then show ?thesis using r by (simp add: rc group_map)
qed

lemma lbl_tmp_row:
  assumes c: "compact_batch gbl b" and s: "sorted (src_idx b)" and g: "sorted gbl" "distinct gbl"
    and len: "length vals = length (src_idx b)" and r: "r < n_active b"
  shows "\<exists>junk. lbl_tmp_of mem K gbl b vals ! r = group (src_idx b) vals r @ junk"
proof -
  let ?M = "alloc mem (row_cnt_of gbl b) (col_cnt_of K b)"
  have rc: "row_cnt_of gbl b = n_active b" using c g by (rule compact_row_cnt)
  have lt: "\<forall>x\<in>set (src_idx b). x < n_active b"
    using compact_batchD(1) [OF c] by blast
  have M1: "n_active b \<le> length ?M" by (simp add: rc alloc_def)
  have M2: "\<forall>k<n_active b. count_list (src_idx b) k \<le> length (?M ! k)"
    using compact_count_le [OF c] by (simp add: rc alloc_def)
  have "lbl_tmp_of mem K gbl b vals ! r
      = group (src_idx b) vals r @ drop (count_list (src_idx b) r) (?M ! r)"
    unfolding lbl_tmp_of_def compact_col_idx [OF c]
    using s lt len M1 M2 r by (rule index_put_sorted)
  then show ?thesis by blast
qed

lemma items_group:
  assumes c: "compact_batch gbl b" and g: "sorted gbl" "distinct gbl"
    and i: "i < length gbl" "gbl ! i \<in> set (src_ids_of b)"
  shows "group (src_idx b) (zip (edge_score b) (edge_label b)) (slot gbl b i) = items_of (gbl ! i) b"
proof -
  have keys: "\<forall>j<length (src_idx b). (src_idx b ! j = slot gbl b i) \<longleftrightarrow> (src_ids_of b ! j = gbl ! i)"
    using compact_edge_row [OF c g i] by blast
  have "length (src_idx b) = length (src_ids_of b)" by (simp add: src_ids_of_def)
  then show ?thesis
    unfolding group_def items_of_def using keys by (rule filter_zip_keys)
qed

lemma tmp_row_items:
  assumes gr: "grouped_batch gbl b" and g: "sorted gbl" "distinct gbl"
    and i: "i < length gbl" "gbl ! i \<in> set (src_ids_of b)"
  shows "fin (zip (scr_tmp_of K gbl b (edge_score b) ! slot gbl b i)
                  (lbl_tmp_of mem K gbl b (edge_label b) ! slot gbl b i))
         = items_of (gbl ! i) b"
proof -
  let ?xs = "src_idx b" and ?r = "slot gbl b i"
  from gr have c: "compact_batch gbl b" and s: "sorted ?xs"
    and ls: "length (edge_score b) = length ?xs" and ll: "length (edge_label b) = length ?xs"
    by (simp_all add: grouped_batch_def wf_batch_def)
  have r: "?r < n_active b"
    using slot_less [OF i] compact_row_cnt [OF c g] by simp
  let ?S = "group ?xs (edge_score b) ?r" and ?L = "group ?xs (edge_label b) ?r"
  have lSL: "length ?S = length ?L"
    using ls ll by (simp add: group_length)
  obtain junk where lt: "lbl_tmp_of mem K gbl b (edge_label b) ! ?r = ?L @ junk"
    using lbl_tmp_row [OF c s g ll r] by blast
  have st: "scr_tmp_of K gbl b (edge_score b) ! ?r
      = map Some ?S @ replicate (col_cnt_of K b - count_list ?xs ?r) None"
    using c s g ls r by (rule scr_tmp_row)
  have "zip (map Some ?S @ replicate (col_cnt_of K b - count_list ?xs ?r) None) (?L @ junk)
      = zip (map Some ?S) ?L @ zip (replicate (col_cnt_of K b - count_list ?xs ?r) None) junk"
    using lSL by simp
  then have "fin (zip (scr_tmp_of K gbl b (edge_score b) ! ?r)
                      (lbl_tmp_of mem K gbl b (edge_label b) ! ?r)) = zip ?S ?L"
    unfolding st lt using lSL by (simp add: fin_append fin_zip_Some fin_zip_None)
  also have "\<dots> = group ?xs (zip (edge_score b) (edge_label b)) ?r"
    by (rule group_zip)
  also have "\<dots> = items_of (gbl ! i) b"
    using c g i by (rule items_group)
  finally show ?thesis .
qed

subsection \<open>The step on one row\<close>

lemma expand_last_same: "length xs = n \<Longrightarrow> expand_last n xs = Inr xs"
  by (simp add: expand_last_def)

lemma rank_step_row_full:
  assumes ok: "rank_step T K gbl bno b st = Inr st'"
    and inv: "buf_inv K (length gbl) st" and i: "i < length gbl" and wf: "wf_batch gbl b"
  defines "stmp \<equiv> scr_tmp_of K gbl b (edge_score b)"
    and "ltmp \<equiv> lbl_tmp_of (empty T (Suc bno)) K gbl b (edge_label b)"
    and "r \<equiv> slot gbl b i"
  defines "srow \<equiv> (if gbl ! i \<in> set (src_ids_of b)
                    then take K (scr_buf st ! i) @ gather (stmp ! r) (topk T K (stmp ! r))
                    else scr_buf st ! i)"
    and "lrow \<equiv> (if gbl ! i \<in> set (src_ids_of b)
                    then take K (lbl_buf st ! i) @ gather (ltmp ! r) (topk T K (stmp ! r))
                    else lbl_buf st ! i)"
  shows "scr_buf st' ! i = gather srow (argsort T srow)"
    and "lbl_buf st' ! i = gather lrow (argsort T srow)"
proof -
  from wf have ls: "length (edge_score b) = length (src_idx b)"
    and ll: "length (edge_label b) = length (src_idx b)"
    by (simp_all add: wf_batch_def)
  from ok obtain scores labels where
    es: "expand_last (length (src_idx b)) (edge_score b) = Inr scores"
    and el: "expand_last (length (src_idx b)) (edge_label b) = Inr labels"
    and s: "scr_buf st' = gather_rows
        (masked_upd (\<lambda>row new. take K row @ new) (gbl_msk_of gbl b) (scr_buf st)
           (gather_rows (scr_tmp_of K gbl b scores) (map (topk T K) (scr_tmp_of K gbl b scores))))
        (map (argsort T)
          (masked_upd (\<lambda>row new. take K row @ new) (gbl_msk_of gbl b) (scr_buf st)
           (gather_rows (scr_tmp_of K gbl b scores) (map (topk T K) (scr_tmp_of K gbl b scores)))))"
    and l: "lbl_buf st' = gather_rows
        (masked_upd (\<lambda>row new. take K row @ new) (gbl_msk_of gbl b) (lbl_buf st)
           (gather_rows (lbl_tmp_of (empty T (Suc bno)) K gbl b labels)
              (map (topk T K) (scr_tmp_of K gbl b scores))))
        (map (argsort T)
          (masked_upd (\<lambda>row new. take K row @ new) (gbl_msk_of gbl b) (scr_buf st)
           (gather_rows (scr_tmp_of K gbl b scores) (map (topk T K) (scr_tmp_of K gbl b scores)))))"
    by (rule rank_step_rows)
  have sc: "scores = edge_score b" using es expand_last_same [OF ls] by simp
  have lb: "labels = edge_label b" using el expand_last_same [OF ll] by simp
  let ?stop = "gather_rows stmp (map (topk T K) stmp)"
  let ?ltop = "gather_rows ltmp (map (topk T K) stmp)"
  let ?snew = "masked_upd (\<lambda>row new. take K row @ new) (gbl_msk_of gbl b) (scr_buf st) ?stop"
  let ?lnew = "masked_upd (\<lambda>row new. take K row @ new) (gbl_msk_of gbl b) (lbl_buf st) ?ltop"
  from inv have len: "length (scr_buf st) = length gbl" "length (lbl_buf st) = length gbl"
    by (simp_all add: buf_inv_def)
  have ltop: "length ?stop = row_cnt_of gbl b" "length ?ltop = row_cnt_of gbl b"
    unfolding stmp_def ltmp_def by (simp_all add: scr_tmp_shape lbl_tmp_shape)
  have top: "?stop ! r = gather (stmp ! r) (topk T K (stmp ! r))"
            "?ltop ! r = gather (ltmp ! r) (topk T K (stmp ! r))"
    if "gbl ! i \<in> set (src_ids_of b)"
  proof -
    have "r < row_cnt_of gbl b" unfolding r_def using i that by (rule slot_less)
    then show "?stop ! r = gather (stmp ! r) (topk T K (stmp ! r))"
      "?ltop ! r = gather (ltmp ! r) (topk T K (stmp ! r))"
      unfolding stmp_def ltmp_def by (simp_all add: gather_rows_nth scr_tmp_shape lbl_tmp_shape)
  qed
  have "?snew ! i = (if gbl ! i \<in> set (src_ids_of b)
        then take K (scr_buf st ! i) @ ?stop ! slot gbl b i else scr_buf st ! i)"
    using i len ltop by (intro merged_row) simp_all
  then have sn: "?snew ! i = srow"
    unfolding srow_def using top(1) by (simp add: r_def)
  have "?lnew ! i = (if gbl ! i \<in> set (src_ids_of b)
        then take K (lbl_buf st ! i) @ ?ltop ! slot gbl b i else lbl_buf st ! i)"
    using i len ltop by (intro merged_row) simp_all
  then have ln: "?lnew ! i = lrow"
    unfolding lrow_def using top(2) by (simp add: r_def)
  have "scr_buf st' ! i = gather (?snew ! i) (argsort T (?snew ! i))"
    unfolding s sc stmp_def using i len by (simp add: gather_rows_nth)
  then show "scr_buf st' ! i = gather srow (argsort T srow)" unfolding sn .
  have "lbl_buf st' ! i = gather (?lnew ! i) (argsort T (?snew ! i))"
    unfolding l sc lb stmp_def ltmp_def using i len by (simp add: gather_rows_nth)
  then show "lbl_buf st' ! i = gather lrow (argsort T srow)" unfolding sn ln .
qed

subsection \<open>The largest scores\<close>

lemma sort_mset_cong: "mset xs = mset ys \<Longrightarrow> sort xs = sort (ys :: real list)"
  by (metis mset_sort properties_for_sort sorted_sort)

lemma sort_key_uminus: "sort_key uminus (xs :: real list) = rev (sort xs)"
proof -
  let ?D = "sort_key uminus xs"
  have "sorted (map uminus ?D)" by (rule sorted_sort_key)
  then have "sorted_wrt (\<lambda>a b. b \<le> a) ?D" by (simp add: sorted_wrt_map)
  then have "sorted (rev ?D)" by (simp add: sorted_wrt_rev)
  moreover have "mset (rev ?D) = mset xs" by simp
  ultimately have "sort xs = rev ?D" by (intro properties_for_sort)
  then show ?thesis by simp
qed

lemma top_append:
  "take K (rev (sort (A @ take K (rev (sort B))))) = take K (rev (sort (A @ (B :: real list))))"
  using take_sort_append [of K uminus A B] by (simp only: sort_key_uminus)

lemma top_merge:
  assumes "mset G = mset (take K (rev (sort (B :: real list))))"
  shows "take K (rev (sort (take K (rev (sort A)) @ G))) = take K (rev (sort (A @ B)))"
proof -
  let ?X = "take K (rev (sort A))"
  have "sort (?X @ G) = sort (?X @ take K (rev (sort B)))"
    using assms by (intro sort_mset_cong) simp
  then have "take K (rev (sort (?X @ G))) = take K (rev (sort (?X @ take K (rev (sort B)))))"
    by simp
  also have "\<dots> = take K (rev (sort (?X @ B)))" by (rule top_append)
  also have "sort (?X @ B) = sort (B @ ?X)" by (intro sort_mset_cong) simp
  also have "take K (rev (sort (B @ ?X))) = take K (rev (sort (B @ A)))" by (rule top_append)
  also have "sort (B @ A) = sort (A @ B)" by (intro sort_mset_cong) simp
  finally show ?thesis .
qed

subsection \<open>Selections of a row\<close>

lemma mset_take_subseteq: "mset (take K xs) \<subseteq># mset xs"
  by (metis append_take_drop_id mset_append mset_subset_eq_add_left)

lemma mset_fin_mono: "mset xs \<subseteq># mset ys \<Longrightarrow> mset (fin xs) \<subseteq># mset (fin ys)"
  unfolding mset_fin by (intro image_mset_subseteq_mono multiset_filter_mono)

lemma mset_gather_subseteq:
  assumes "distinct I" "set I \<subseteq> {..<length xs}"
  shows "mset (gather xs I) \<subseteq># mset xs"
proof -
  have "mset_set (set I) \<subseteq># mset_set {0..<length xs}"
    using assms(2) by (intro subset_imp_msubset_mset_set) auto
  then have "mset I \<subseteq># mset [0..<length xs]"
    using assms(1) by (simp add: mset_set_set)
  then have "image_mset (\<lambda>i. xs ! i) (mset I) \<subseteq># image_mset (\<lambda>i. xs ! i) (mset [0..<length xs])"
    by (rule image_mset_subseteq_mono)
  moreover have "image_mset (\<lambda>i. xs ! i) (mset [0..<length xs]) = mset xs"
    by (metis map_nth mset_map)
  ultimately show ?thesis by (simp add: gather_def)
qed

lemma topk_sel:
  assumes tk: "topk_ok tk" and len: "length xs = length ls" and K: "K \<le> length xs"
  shows "mset (fin (zip (gather xs (tk K xs)) (gather ls (tk K xs)))) \<subseteq># mset (fin (zip xs ls))"
    and "mset (fins (gather xs (tk K xs))) = mset (take K (rev (sort (fins xs))))"
proof -
  let ?I = "tk K xs"
  from tk K have I: "set ?I \<subseteq> {..<length xs}" and d: "distinct ?I"
    and m: "mset (gather xs ?I) = mset (take K (rev (sort xs)))"
    unfolding topk_ok_def by blast+
  have z: "zip (gather xs ?I) (gather ls ?I) = gather (zip xs ls) ?I"
    using len I by (rule zip_gather)
  have "mset (gather (zip xs ls) ?I) \<subseteq># mset (zip xs ls)"
    using d I len by (intro mset_gather_subseteq) simp_all
  then show "mset (fin (zip (gather xs ?I) (gather ls ?I))) \<subseteq># mset (fin (zip xs ls))"
    unfolding z by (rule mset_fin_mono)
  show "mset (fins (gather xs ?I)) = mset (take K (rev (sort (fins xs))))"
    using mset_fins_cong [OF m] by (simp only: fins_take_rev_sort)
qed

subsection \<open>The step on one row keeps the largest scores\<close>

lemma fins_zip: "length xs = length ls \<Longrightarrow> map fst (fin (zip xs ls)) = fins xs"
  by (simp add: fins_fin)

lemma rank_step_top:
  assumes ok: "rank_step T K gbl bno b st = Inr st'" and T: "torch_ok T"
    and inv: "buf_inv K (length gbl) st" and gr: "grouped_batch gbl b"
    and g: "sorted gbl" "distinct gbl" and i: "i < length gbl"
    and ti: "top_inv K st i L"
  shows "top_inv K st' i (L @ items_of (gbl ! i) b)"
proof -
  from T have a: "argsort_ok (argsort T)" and tk: "topk_ok (topk T)"
    by (simp_all add: torch_ok_def)
  from gr have wf: "wf_batch gbl b" by (simp add: grouped_batch_def)
  from inv i have len: "length (scr_buf st ! i) = 2 * K" "length (lbl_buf st ! i) = 2 * K"
    and ds: "desc (scr_buf st ! i)"
    by (simp_all add: buf_inv_def)
  let ?s = "scr_buf st ! i" and ?l = "lbl_buf st ! i"
  from ti have m0: "mset (fin (zip ?s ?l)) \<subseteq># mset L"
    and f0: "fins (take K ?s) = take K (rev (sort (map fst L)))"
    by (simp_all add: top_inv_def prow_def)
  let ?stmp = "scr_tmp_of K gbl b (edge_score b)"
  let ?ltmp = "lbl_tmp_of (empty T (Suc bno)) K gbl b (edge_label b)"
  let ?r = "slot gbl b i"
  note rows = rank_step_row_full [OF ok inv i wf]
  have sorted_row: "mset (fin (zip (gather srow (argsort T srow)) (gather lrow (argsort T srow))))
        = mset (fin (zip srow lrow))"
    if "length srow = length lrow" for srow lrow
  proof -
    have p: "mset (argsort T srow) = mset [0..<length (zip srow lrow)]"
      using argsort_ok_mset [OF a, of srow] that by simp
    then have "set (argsort T srow) \<subseteq> {..<length srow}"
      using perm_upt_props(2) [OF p] that by simp
    with that have e: "zip (gather srow (argsort T srow)) (gather lrow (argsort T srow))
        = gather (zip srow lrow) (argsort T srow)"
      by (rule zip_gather)
    have "mset (gather (zip srow lrow) (argsort T srow)) = mset (zip srow lrow)"
      using p by (rule mset_gather)
    then show ?thesis unfolding e by (rule mset_fin_cong)
  qed
  show ?thesis
  proof (cases "gbl ! i \<in> set (src_ids_of b)")
    case True
    let ?xs = "?stmp ! ?r" and ?ls = "?ltmp ! ?r"
    let ?snew = "take K ?s @ gather ?xs (topk T K ?xs)"
    let ?lnew = "take K ?l @ gather ?ls (topk T K ?xs)"
    have r: "?r < row_cnt_of gbl b" using i True by (rule slot_less)
    have lx: "length ?xs = length ?ls" "K \<le> length ?xs"
      using r by (simp_all add: scr_tmp_shape lbl_tmp_shape K_le_col_cnt)
    have B: "fin (zip ?xs ?ls) = items_of (gbl ! i) b"
      using gr g i True by (rule tmp_row_items)
    have Bs: "fins ?xs = map fst (items_of (gbl ! i) b)"
      unfolding B [symmetric] using lx(1) by (rule fins_zip [symmetric])
    have s': "scr_buf st' ! i = gather ?snew (argsort T ?snew)"
      and l': "lbl_buf st' ! i = gather ?lnew (argsort T ?snew)"
      using rows True by simp_all
    note sel = topk_sel [OF tk lx]
    have ln: "length ?snew = length ?lnew" using len by simp
    have z: "zip ?snew ?lnew
        = take K (zip ?s ?l) @ zip (gather ?xs (topk T K ?xs)) (gather ?ls (topk T K ?xs))"
      using len by (simp add: take_zip)
    have "mset (fin (take K (zip ?s ?l))) \<subseteq># mset (fin (zip ?s ?l))"
      by (intro mset_fin_mono mset_take_subseteq)
    from this m0 have "mset (fin (take K (zip ?s ?l))) \<subseteq># mset L"
      by (rule subset_mset.order_trans)
    with sel(1) have "mset (fin (zip ?snew ?lnew)) \<subseteq># mset L + mset (items_of (gbl ! i) b)"
      unfolding z fin_append B by (simp add: subset_mset.add_mono)
    then have 1: "mset (fin (prow st' i)) \<subseteq># mset (L @ items_of (gbl ! i) b)"
      unfolding prow_def s' l' sorted_row [OF ln] by simp
    have "scr_buf st' ! i = rev (sort ?snew)" unfolding s' using a by (rule argsort_ok_gather)
    then have "fins (take K (scr_buf st' ! i)) = take K (rev (sort (fins ?snew)))"
      by (simp only: fins_take_rev_sort)
    also have "fins ?snew = take K (rev (sort (map fst L))) @ fins (gather ?xs (topk T K ?xs))"
      by (simp only: fins_append f0)
    also have "take K (rev (sort (take K (rev (sort (map fst L))) @ fins (gather ?xs (topk T K ?xs)))))
        = take K (rev (sort (map fst L @ map fst (items_of (gbl ! i) b))))"
      using sel(2) unfolding Bs by (rule top_merge)
    finally have 2: "fins (take K (scr_buf st' ! i))
        = take K (rev (sort (map fst (L @ items_of (gbl ! i) b))))"
      by simp
    from 1 2 show ?thesis by (simp add: top_inv_def)
  next
    case False
    have s': "scr_buf st' ! i = gather ?s (argsort T ?s)"
      and l': "lbl_buf st' ! i = gather ?l (argsort T ?s)"
      using rows False by simp_all
    have ln: "length ?s = length ?l" using len by simp
    have e: "scr_buf st' ! i = ?s" unfolding s' using a ds by (rule argsort_sorted_id)
    have "mset (fin (prow st' i)) = mset (fin (zip ?s ?l))"
      unfolding prow_def s' l' using ln by (rule sorted_row)
    with m0 have 1: "mset (fin (prow st' i)) \<subseteq># mset L" by simp
    have n: "items_of (gbl ! i) b = []" using False by (rule items_inactive)
    from 1 f0 show ?thesis unfolding n by (simp add: top_inv_def e)
  qed
qed

lemma init_top_inv:
  assumes "i < N"
  shows "top_inv K (init_state T K N) i []"
proof -
  have "prow (init_state T K N) i = zip (replicate (2 * K) None) (map (empty T 0 i) [0..<2 * K])"
    using assms by (simp add: prow_def init_state_def alloc_def)
  moreover have "fin (zip (replicate (2 * K) None) ls) = []" for ls :: "real list"
    by (rule fin_zip_None)
  moreover have "scr_buf (init_state T K N) ! i = replicate (2 * K) None"
    using assms by (simp add: init_state_def)
  ultimately show ?thesis by (simp add: top_inv_def fins_None)
qed

lemma rank_loop_top:
  assumes T: "torch_ok T" and g: "sorted gbl" "distinct gbl" and i: "i < length gbl"
  shows "buf_inv K (length gbl) st \<Longrightarrow> top_inv K st i L \<Longrightarrow>
         \<forall>b\<in>set bs. grouped_batch gbl b \<Longrightarrow>
         \<exists>st'. rank_loop T K gbl bno bs st = Inr st' \<and> buf_inv K (length gbl) st' \<and>
               top_inv K st' i (L @ stream_items (gbl ! i) bs)"
proof (induction bs arbitrary: bno st L)
  case Nil
  then show ?case by (simp add: stream_items_def)
next
  case (Cons b bs)
  let ?B = "items_of (gbl ! i) b"
  have si: "stream_items (gbl ! i) (b # bs) = ?B @ stream_items (gbl ! i) bs"
    by (simp add: stream_items_def)
  from Cons.prems(3) have gr: "grouped_batch gbl b" and rest: "\<forall>b\<in>set bs. grouped_batch gbl b"
    by simp_all
  from gr have wf: "wf_batch gbl b" by (simp add: grouped_batch_def)
  from rank_step_total [OF wf g] obtain st1 where
    s: "rank_step T K gbl bno b st = Inr st1" by blast
  from s T Cons.prems(1) have inv1: "buf_inv K (length gbl) st1" by (rule rank_step_inv)
  have t1: "top_inv K st1 i (L @ ?B)"
    using s T Cons.prems(1) gr g i Cons.prems(2) by (rule rank_step_top)
  from Cons.IH [OF inv1 t1 rest, of "Suc bno"] obtain st' where
    l: "rank_loop T K gbl (Suc bno) bs st1 = Inr st'" and inv': "buf_inv K (length gbl) st'"
    and t': "top_inv K st' i ((L @ ?B) @ stream_items (gbl ! i) bs)"
    by blast
  have "rank_loop T K gbl bno (b # bs) st = Inr st'" using s l by simp
  moreover have "top_inv K st' i (L @ stream_items (gbl ! i) (b # bs))"
    using t' unfolding si by simp
  ultimately show ?case using inv' by blast
qed

text \<open>The first entries of the row, as many as the entity has items (at most \<open>K\<close>), are
  items of the entity with the largest scores.\<close>

lemma top_inv_labels:
  assumes inv: "buf_inv K N st" and i: "i < N" and ti: "top_inv K st i L"
  defines "sel \<equiv> fin (take K (prow st i))"
  shows "mset sel \<subseteq># mset L"
    and "map fst sel = take K (rev (sort (map fst L)))"
    and "take (min K (length L)) (lbl_buf st ! i) = map snd sel"
proof -
  let ?s = "scr_buf st ! i" and ?l = "lbl_buf st ! i"
  let ?Z = "take K (zip ?s ?l)"
  from inv i have len: "length ?s = 2 * K" "length ?l = 2 * K" and ds: "desc ?s"
    by (simp_all add: buf_inv_def)
  from ti have m0: "mset (fin (zip ?s ?l)) \<subseteq># mset L"
    and f0: "fins (take K ?s) = take K (rev (sort (map fst L)))"
    by (simp_all add: top_inv_def prow_def)
  have sel: "sel = fin ?Z" by (simp add: sel_def prow_def)
  have "mset (fin ?Z) \<subseteq># mset (fin (zip ?s ?l))"
    by (intro mset_fin_mono mset_take_subseteq)
  from this m0 show "mset sel \<subseteq># mset L" unfolding sel by (rule subset_mset.order_trans)
  have "?Z = zip (take K ?s) (take K ?l)" by (simp add: take_zip)
  then have "map fst (fin ?Z) = fins (take K ?s)"
    using len by (simp add: fins_zip)
  then show k: "map fst sel = take K (rev (sort (map fst L)))" unfolding sel f0 .
  have "length (map fst sel) = length (take K (rev (sort (map fst L))))" by (simp only: k)
  then have ls: "length sel = min K (length L)" by simp
  have "desc (map fst (zip ?s ?l))" using ds len by simp
  then have dz: "desc (map fst ?Z)"
    unfolding take_map [symmetric] by (rule sorted_wrt_take)
  show "take (min K (length L)) ?l = map snd sel"
  proof (rule nth_equalityI)
    show "length (take (min K (length L)) ?l) = length (map snd sel)"
      using len ls by simp
    fix j assume "j < length (take (min K (length L)) ?l)"
    then have j: "j < min K (length L)" by simp
    then have jf: "j < length (fin ?Z)" unfolding sel [symmetric] ls .
    have "?Z ! j = (Some (fst (fin ?Z ! j)), snd (fin ?Z ! j))"
      using dz jf by (rule fin_nth)
    then have "snd (?Z ! j) = snd (sel ! j)" unfolding sel by simp
    moreover have "?Z ! j = (?s ! j, ?l ! j)" using j len by simp
    ultimately have "?l ! j = snd (sel ! j)" by simp
    then show "take (min K (length L)) ?l ! j = map snd sel ! j"
      using j ls by simp
  qed
qed

text \<open>With pairwise different scores the selection is determined.\<close>

lemma best_subset: "set (best K A) \<subseteq> set A"
  unfolding best_def by (metis set_take_subset set_sort)

lemma sel_best:
  assumes sub: "mset sel \<subseteq># mset L" and k: "map fst sel = take K (rev (sort (map fst L)))"
    and d: "distinct (map fst L)"
  shows "sel = best K L"
proof -
  have eq: "map fst sel = map fst (best K L)"
    by (simp only: best_def k take_map [symmetric] map_fst_sort_desc)
  have s1: "set sel \<subseteq> set L" using set_mset_mono [OF sub] by simp
  have s2: "set (best K L) \<subseteq> set L" by (rule best_subset)
  from s1 s2 have s3: "set sel \<union> set (best K L) \<subseteq> set L" by blast
  have "inj_on fst (set L)" using d by (simp add: distinct_map)
  then have "inj_on fst (set sel \<union> set (best K L))" using s3 by (rule inj_on_subset)
  then have "(map fst sel = map fst (best K L)) = (sel = best K L)" by (rule inj_on_map_eq_map)
  with eq show ?thesis by blast
qed

text \<open>
  Claim C2 (amended). When every batch of the stream has the compact numbering, comes
  with its edges in ascending order of source index, and carries one (finite) score and
  one label per edge and at least one edge, \<open>rank\<close> returns, and the first \<open>min K n\<close>
  labels of an entity's row (\<open>n\<close> the number of its items) are the labels of items of that
  entity, none taken more often than it arrived, whose scores are the \<open>K\<close> largest scores
  of the entity over the whole stream, in descending order. Which of several items with
  the same score is taken is left to the library; when the scores of the entity are
  pairwise different, the labels are those of its \<open>K\<close> best items. The items enter only
  through their concatenation over the batches, so the result does not depend on where
  the batches are cut. The rest of the row, which is \<open>2 * K\<close> wide, is not described.
\<close>

theorem rank_top_labels:
  assumes T: "torch_ok T"
    and gr: "\<forall>b\<in>set stream. grouped_batch (unique data_src) b"
    and i: "i < length (unique data_src)"
  shows "\<exists>labels counts sel.
           rank T data_src stream K = Inr (labels, counts) \<and>
           mset sel \<subseteq># mset (stream_items (unique data_src ! i) stream) \<and>
           map fst sel = take K (rev (sort (map fst (stream_items (unique data_src ! i) stream)))) \<and>
           take (min K (length (stream_items (unique data_src ! i) stream))) (labels ! i)
             = map snd sel \<and>
           (distinct (map fst (stream_items (unique data_src ! i) stream)) \<longrightarrow>
              sel = best K (stream_items (unique data_src ! i) stream))"
proof -
  let ?gbl = "unique data_src"
  let ?L = "stream_items (?gbl ! i) stream"
  have t0: "top_inv K (init_state T K (length ?gbl)) i []" using i by (rule init_top_inv)
  from rank_loop_top [OF T unique_sorted i init_state_inv t0 gr, of 0] obtain st where
    l: "rank_loop T K ?gbl 0 stream (init_state T K (length ?gbl)) = Inr st"
    and inv: "buf_inv K (length ?gbl) st" and ti: "top_inv K st i ?L"
    by auto
  have r: "rank T data_src stream K = Inr (lbl_buf st, pos_cnt st)"
    by (simp add: rank_def l)
  note s = top_inv_labels [OF inv i ti]
  have "distinct (map fst ?L) \<longrightarrow> fin (take K (prow st i)) = best K ?L"
    using sel_best [OF s(1,2)] by blast
  with r s show ?thesis by blast
qed

theorem rank_top_labels_witness:
  "\<exists>labels counts sel.
     rank (torch_part (\<lambda>a i j. 0)) [4]
       [\<lparr>n_id = [4], src_idx = [0, 0], edge_label = [1, 0], edge_score = [5, 5]\<rparr>,
        \<lparr>n_id = [4], src_idx = [0, 0], edge_label = [0, 1], edge_score = [7, 5]\<rparr>] 2
       = Inr (labels, counts)
     \<and> mset sel \<subseteq># mset [(5, 1), (5, 0), (7, 0), (5 :: real, 1 :: real)]
     \<and> map fst sel = [7, 5]
     \<and> take 2 (labels ! 0) = map snd sel"
proof -
  let ?T = "torch_part (\<lambda>a i j. 0)"
  let ?b1 = "\<lparr>n_id = [4], src_idx = [0, 0], edge_label = [1, 0], edge_score = [5, 5]\<rparr>"
  let ?b2 = "\<lparr>n_id = [4], src_idx = [0, 0], edge_label = [0, 1], edge_score = [7, 5]\<rparr>"
  have T: "torch_ok ?T" by (rule torch_part_ok)
  have u: "unique [4] = [4]" by (simp add: unique_def)
  have gr: "\<forall>b\<in>set [?b1, ?b2]. grouped_batch (unique [4]) b"
    unfolding u by (simp add: grouped_batch_def wf_batch_def compact_batch_def n_active_def)
  have i: "0 < length (unique [4])" unfolding u by simp
  have L: "stream_items (unique [4] ! 0) [?b1, ?b2] = [(5, 1), (5, 0), (7, 0), (5, 1)]"
    unfolding u by (simp add: stream_items_def items_of_def src_ids_of_def)
  have k: "take 2 (rev (sort (map fst [(5, 1), (5, 0), (7, 0), (5 :: real, 1 :: real)]))) = [7, 5]"
    by simp
  have m: "min 2 (length [(5, 1), (5, 0), (7, 0), (5 :: real, 1 :: real)]) = 2" by simp
  from rank_top_labels [OF T gr i, of 2] obtain labels counts sel where
    r: "rank ?T [4] [?b1, ?b2] 2 = Inr (labels, counts)"
    and s: "mset sel \<subseteq># mset (stream_items (unique [4] ! 0) [?b1, ?b2])"
    and f: "map fst sel = take 2 (rev (sort (map fst (stream_items (unique [4] ! 0) [?b1, ?b2]))))"
    and t: "take (min 2 (length (stream_items (unique [4] ! 0) [?b1, ?b2]))) (labels ! 0)
             = map snd sel"
    by blast
  from s have s': "mset sel \<subseteq># mset [(5, 1), (5, 0), (7, 0), (5, 1)]" unfolding L .
  from f have f': "map fst sel = [7, 5]" unfolding L k .
  from t have t': "take 2 (labels ! 0) = map snd sel" unfolding L m .
  show ?thesis by (intro exI conjI) (rule r, rule s', rule f', rule t')
qed

theorem rank_top_labels_counterexample:
  "rank (torch_stable (\<lambda>a i j. 0)) [4, 9]
     [\<lparr>n_id = [9, 4], src_idx = [0, 1], edge_label = [1, 0], edge_score = [5, 3]\<rparr>] 1
     = Inr ([[1, 0], [0, 0]], [1, 0])
   \<and> stream_items 4
        [\<lparr>n_id = [9, 4], src_idx = [0, 1], edge_label = [1, 0], edge_score = [5, 3]\<rparr>]
     = [(3, 0)]
   \<and> rank (torch_stable (\<lambda>a i j. 0)) [4, 9]
     [\<lparr>n_id = [4, 9], src_idx = [0, 1, 0], edge_label = [1, 0, 1], edge_score = [5, 3, 5]\<rparr>] 2
     = Inr ([[1, 0, 0, 0], [0, 0, 0, 0]], [2, 0])
   \<and> stream_items 4
        [\<lparr>n_id = [4, 9], src_idx = [0, 1, 0], edge_label = [1, 0, 1], edge_score = [5, 3, 5]\<rparr>]
     = [(5, 1), (5, 1)]"
proof -
  have "rank (torch_stable (\<lambda>a i j. 0)) [4, 9]
     [\<lparr>n_id = [9, 4], src_idx = [0, 1], edge_label = [1, 0], edge_score = [5, 3]\<rparr>] 1
     = Inr ([[1, 0], [0, 0]], [1, 0])"
    by code_simp
  moreover have "stream_items 4
        [\<lparr>n_id = [9, 4], src_idx = [0, 1], edge_label = [1, 0], edge_score = [5, 3]\<rparr>]
     = [(3, 0)]"
    by (simp add: stream_items_def items_of_def src_ids_of_def)
  moreover have "rank (torch_stable (\<lambda>a i j. 0)) [4, 9]
     [\<lparr>n_id = [4, 9], src_idx = [0, 1, 0], edge_label = [1, 0, 1], edge_score = [5, 3, 5]\<rparr>] 2
     = Inr ([[1, 0, 0, 0], [0, 0, 0, 0]], [2, 0])"
    by code_simp
  moreover have "stream_items 4
        [\<lparr>n_id = [4, 9], src_idx = [0, 1, 0], edge_label = [1, 0, 1], edge_score = [5, 3, 5]\<rparr>]
     = [(5, 1), (5, 1)]"
    by (simp add: stream_items_def items_of_def src_ids_of_def)
  ultimately show ?thesis by blast
qed

end
